theory Spec2Isabelle
  imports Complex_Main "HOL-Library.Char_ord" "HOL-Library.List_Lexorder"
    "HOL-Library.Product_Lexorder" "HOL-Library.Multiset" "HOL-Library.Log_Nat"
begin

section \<open>Functional dependencies and the closure engine (normalize.py)\<close>

text \<open>
  An attribute is a column name. A functional dependency is the dictionary
  \<^verbatim>\<open>{"determinant": [...], "dependent": name}\<close> of the scripts.
\<close>

type_synonym attr = string

record fd =
  determinant :: "attr list"
  dependent :: attr

text \<open>
  One run of the \<^verbatim>\<open>for fd in fds\<close> loop inside \<^verbatim>\<open>compute_closure\<close>: the state is the
  set \<^verbatim>\<open>closure\<close> together with the flag \<^verbatim>\<open>changed\<close>.
\<close>

fun closure_pass :: "fd list \<Rightarrow> attr set \<times> bool \<Rightarrow> attr set \<times> bool" where
  "closure_pass [] (c, changed) = (c, changed)"
| "closure_pass (f # fs) (c, changed) =
     (if set (determinant f) \<subseteq> c
      then (if dependent f \<notin> c
            then closure_pass fs (insert (dependent f) c, True)
            else closure_pass fs (c, changed))
      else closure_pass fs (c, changed))"

lemma closure_pass_grows: "fst p \<subseteq> fst (closure_pass fs p)"
proof (induction fs arbitrary: p)
  case Nil
  show ?case by (cases p) simp
next
  case (Cons f fs)
  obtain c ch where p: "p = (c, ch)" by (cases p)
  have a: "fst (c, ch) \<subseteq> fst (closure_pass fs (c, ch))"
    by (rule Cons.IH)
  have b: "fst (insert (dependent f) c, True) \<subseteq> fst (closure_pass fs (insert (dependent f) c, True))"
    by (rule Cons.IH)
  from a b show ?case unfolding p by auto
qed

lemma closure_pass_bounded:
  "fst (closure_pass fs p) \<subseteq> fst p \<union> set (map dependent fs)"
proof (induction fs arbitrary: p)
  case Nil
  show ?case by (cases p) simp
next
  case (Cons f fs)
  obtain c ch where p: "p = (c, ch)" by (cases p)
  have a: "fst (closure_pass fs (c, ch)) \<subseteq> fst (c, ch) \<union> set (map dependent fs)"
    by (rule Cons.IH)
  have b: "fst (closure_pass fs (insert (dependent f) c, True))
             \<subseteq> fst (insert (dependent f) c, True) \<union> set (map dependent fs)"
    by (rule Cons.IH)
  from a b show ?case unfolding p by auto
qed

lemma closure_pass_flag:
  "snd (closure_pass fs p) \<Longrightarrow> snd p \<or> fst p \<noteq> fst (closure_pass fs p)"
proof (induction fs arbitrary: p)
  case Nil
  then show ?case by (cases p) simp
next
  case (Cons f fs)
  obtain c ch where p: "p = (c, ch)" by (cases p)
  show ?case
  proof (cases "set (determinant f) \<subseteq> c \<and> dependent f \<notin> c")
    case True
    have "insert (dependent f) c \<subseteq> fst (closure_pass fs (insert (dependent f) c, True))"
      using closure_pass_grows [of "(insert (dependent f) c, True)" fs] by simp
    with True show ?thesis unfolding p by auto
  next
    case False
    with Cons.prems have "snd (closure_pass fs (c, ch))" unfolding p by (auto split: if_splits)
    from Cons.IH [OF this] False show ?thesis unfolding p by auto
  qed
qed

text \<open>
  The \<^verbatim>\<open>while changed\<close> loop of \<^verbatim>\<open>compute_closure\<close>. Every pass that sets the flag
  adds a dependent that was not yet in the set, so the number of dependents outside the
  set decreases.
\<close>

function closure_loop :: "fd list \<Rightarrow> attr set \<Rightarrow> attr set" where
  "closure_loop fds c =
     (case closure_pass fds (c, False) of
        (c', changed) \<Rightarrow> if changed then closure_loop fds c' else c')"
  by pat_completeness auto
termination
proof (relation "measure (\<lambda>(fds, c). card (set (map dependent fds) - c))")
  show "wf (measure (\<lambda>(fds, c). card (set (map dependent fds) - c)))"
    by simp
next
  fix fds :: "fd list" and c c' :: "attr set" and changed :: bool
  assume p: "(c', changed) = closure_pass fds (c, False)" and ch: "changed"
  have eq: "closure_pass fds (c, False) = (c', True)"
    using p ch by simp
  have sub: "c \<subseteq> c'"
    using closure_pass_grows [of "(c, False)" fds] eq by simp
  have ne: "c \<noteq> c'"
    using closure_pass_flag [of fds "(c, False)"] eq by simp
  have bd: "c' \<subseteq> c \<union> set (map dependent fds)"
    using closure_pass_bounded [of fds "(c, False)"] eq by simp
  have "set (map dependent fds) - c' \<subset> set (map dependent fds) - c"
    using sub ne bd by blast
  then have "card (set (map dependent fds) - c') < card (set (map dependent fds) - c)"
    by (intro psubset_card_mono) simp_all
  then show "((fds, c'), (fds, c)) \<in> measure (\<lambda>(fds, c). card (set (map dependent fds) - c))"
    by simp
qed

definition compute_closure :: "attr set \<Rightarrow> fd list \<Rightarrow> attr set" where
  "compute_closure attrs fds = closure_loop fds attrs"

text \<open>\<^verbatim>\<open>is_derivable\<close> runs the same loop from the determinant of the tested dependency.\<close>

definition is_derivable :: "fd \<Rightarrow> fd list \<Rightarrow> bool" where
  "is_derivable f fd_set \<longleftrightarrow> dependent f \<in> closure_loop fd_set (set (determinant f))"

subsection \<open>Minimal cover\<close>

text \<open>
  Step 2 of \<^verbatim>\<open>compute_minimal_cover\<close>: the dependency at index \<open>i\<close> is kept when it is not
  derivable from \<^verbatim>\<open>minimal[:i] + minimal[i+1:]\<close>.
\<close>

definition remove_redundant :: "fd list \<Rightarrow> fd list" where
  "remove_redundant minimal =
     map (\<lambda>i. minimal ! i)
       (filter (\<lambda>i. \<not> is_derivable (minimal ! i) (take i minimal @ drop (Suc i) minimal))
          [0 ..< length minimal])"

text \<open>
  Step 3, the \<^verbatim>\<open>for attr in det\<close> loop with its \<^verbatim>\<open>break\<close>: the first argument is what
  is left of the iteration over the original determinant.
\<close>

fun reduce_det :: "attr list \<Rightarrow> attr list \<Rightarrow> attr \<Rightarrow> fd list \<Rightarrow> attr list" where
  "reduce_det [] det dep result = det"
| "reduce_det (a # as) det dep result =
     (let reduced_det = filter (\<lambda>x. x \<noteq> a) det in
      if is_derivable \<lparr>determinant = reduced_det, dependent = dep\<rparr> result
      then reduced_det
      else reduce_det as det dep result)"

definition reduce_fd :: "fd list \<Rightarrow> fd \<Rightarrow> fd" where
  "reduce_fd result f =
     \<lparr>determinant =
        (if length (determinant f) > 1
         then reduce_det (determinant f) (determinant f) (dependent f) result
         else determinant f),
      dependent = dependent f\<rparr>"

definition compute_minimal_cover :: "fd list \<Rightarrow> fd list" where
  "compute_minimal_cover fds =
     (let minimal = map (\<lambda>f. \<lparr>determinant = sort (determinant f), dependent = dependent f\<rparr>) fds;
          result = remove_redundant minimal
      in map (reduce_fd result) result)"

subsection \<open>Tables and their names\<close>

text \<open>
  A decomposition unit. 3NF synthesis records the source dependency group
  \<^verbatim>\<open>{"determinant": ..., "dependents": ...}\<close> or \<^verbatim>\<open>None\<close>; the BCNF tables carry no such
  entry, which is \<open>None\<close> here as well.
\<close>

record table =
  name :: string
  columns :: "attr list"
  primary_key :: "attr list"
  source_fd :: "(attr list \<times> attr list) option"

record candidate_key =
  ck_columns :: "attr list"
  is_minimal :: bool

text \<open>\<^verbatim>\<open>s.replace("_id", "")\<close>: every occurrence, scanning from the left.\<close>

fun replace_id :: "string \<Rightarrow> string" where
  "replace_id [] = []"
| "replace_id (c # cs) =
     (if take 3 (c # cs) = ''_id'' then replace_id (drop 2 cs) else c # replace_id cs)"

text \<open>\<^verbatim>\<open>"_".join(xs)\<close>\<close>

fun join_underscore :: "string list \<Rightarrow> string" where
  "join_underscore [] = []"
| "join_underscore [x] = x"
| "join_underscore (x # y # ys) = x @ ''_'' @ join_underscore (y # ys)"

definition generate_table_name :: "attr list \<Rightarrow> attr list \<Rightarrow> string" where
  "generate_table_name key_cols dep_cols =
     (if length dep_cols = 1 then hd dep_cols @ ''s''
      else if length key_cols = 1 then replace_id (hd key_cols) @ ''s''
      else join_underscore (take 2 key_cols))"

subsection \<open>3NF synthesis\<close>

text \<open>
  \<^verbatim>\<open>fd_groups\<close> is a dictionary filled in insertion order and read back in that order, so
  it is an association list here. Iterating over a Python set yields its members in an
  order the language does not fix; wherever the scripts turn a set into a list
  (\<^verbatim>\<open>list(s)\<close>, \<^verbatim>\<open>extend(s)\<close>) the model lists the members in ascending order.
\<close>

fun add_group ::
  "(attr list \<times> attr list) list \<Rightarrow> attr list \<Rightarrow> attr \<Rightarrow> (attr list \<times> attr list) list" where
  "add_group [] det dep = [(det, [dep])]"
| "add_group ((k, deps) # gs) det dep =
     (if k = det then (k, deps @ [dep]) # gs else (k, deps) # add_group gs det dep)"

definition fd_groups :: "fd list \<Rightarrow> (attr list \<times> attr list) list" where
  "fd_groups minimal_cover =
     fold (\<lambda>f gs. add_group gs (sort (determinant f)) (dependent f)) minimal_cover []"

definition group_table :: "attr list \<times> attr list \<Rightarrow> table" where
  "group_table g =
     (case g of (det, deps) \<Rightarrow>
        \<lparr>name = generate_table_name det deps,
         columns = det @ deps,
         primary_key = det,
         source_fd = Some (det, deps)\<rparr>)"

text \<open>
  \<^verbatim>\<open>next((t for t in tables if t["source_fd"] is None), None)\<close> followed by
  \<^verbatim>\<open>main_table["columns"].extend(uncovered)\<close>: the first table without a source
  dependency is extended in place; \<open>None\<close> when there is no such table.
\<close>

fun extend_main :: "table list \<Rightarrow> attr list \<Rightarrow> table list option" where
  "extend_main [] extra = None"
| "extend_main (t # ts) extra =
     (if source_fd t = None then Some (t\<lparr>columns := columns t @ extra\<rparr> # ts)
      else map_option ((#) t) (extend_main ts extra))"

definition decompose_3nf :: "attr list \<Rightarrow> fd list \<Rightarrow> candidate_key list \<Rightarrow> table list" where
  "decompose_3nf cols fds candidate_keys =
     (let minimal_cover = compute_minimal_cover fds;
          fd_tables = map group_table (fd_groups minimal_cover);
          covered_attrs = set (concat (map columns fd_tables));
          all_cols = set cols;
          tables =
            (if candidate_keys \<noteq> [] \<and> \<not> set (ck_columns (hd candidate_keys)) \<subseteq> covered_attrs
             then fd_tables @
                    [\<lparr>name = ''main_keys'',
                      columns = sorted_list_of_set (set (ck_columns (hd candidate_keys))),
                      primary_key = sorted_list_of_set (set (ck_columns (hd candidate_keys))),
                      source_fd = None\<rparr>]
             else fd_tables);
          uncovered = all_cols - covered_attrs
      in if uncovered \<noteq> {} \<and> candidate_keys \<noteq> []
         then (case extend_main tables (sorted_list_of_set uncovered) of
                 Some tables' \<Rightarrow> tables'
               | None \<Rightarrow>
                   tables @
                     [\<lparr>name = ''main'',
                       columns = ck_columns (hd candidate_keys) @ sorted_list_of_set uncovered,
                       primary_key = ck_columns (hd candidate_keys),
                       source_fd = None\<rparr>])
         else tables)"

subsection \<open>BCNF decomposition\<close>

definition relevant :: "attr set \<Rightarrow> fd list \<Rightarrow> fd list" where
  "relevant col_set fds =
     filter (\<lambda>f. set (determinant f) \<subseteq> col_set \<and> dependent f \<in> col_set) fds"

fun first_closing :: "attr set \<Rightarrow> fd list \<Rightarrow> fd list \<Rightarrow> attr list option" where
  "first_closing col_set relevant_fds [] = None"
| "first_closing col_set relevant_fds (f # fs) =
     (if col_set \<subseteq> compute_closure (set (determinant f)) relevant_fds
      then Some (sorted_list_of_set (set (determinant f)))
      else first_closing col_set relevant_fds fs)"

definition find_key :: "attr list \<Rightarrow> fd list \<Rightarrow> candidate_key list \<Rightarrow> attr list" where
  "find_key cols fds candidate_keys =
     (let col_set = set cols in
      case find (\<lambda>ck. set (ck_columns ck) \<subseteq> col_set) candidate_keys of
        Some ck \<Rightarrow> ck_columns ck
      | None \<Rightarrow>
          (let relevant_fds = relevant col_set fds in
           case first_closing col_set relevant_fds relevant_fds of
             Some det \<Rightarrow> det
           | None \<Rightarrow> cols))"

definition is_superkey :: "attr set \<Rightarrow> attr set \<Rightarrow> fd list \<Rightarrow> bool" where
  "is_superkey det all_cols fds \<longleftrightarrow> all_cols \<subseteq> compute_closure det fds"

text \<open>
  The nested \<^verbatim>\<open>bcnf_decompose\<close>. Its recursion is not structural and the source gives no
  bound, so a run that does not return is the value \<open>None\<close>. The result is the list of
  \<^verbatim>\<open>{"columns": ..., "primary_key": ...}\<close> dictionaries, before names are added.
\<close>

partial_function (option) bcnf_decompose ::
  "candidate_key list \<Rightarrow> attr list \<Rightarrow> fd list \<Rightarrow> (attr list \<times> attr list) list option" where
  "bcnf_decompose candidate_keys cols fds =
     (let col_set = set cols;
          relevant_fds = relevant col_set fds
      in case find (\<lambda>f. \<not> is_superkey (set (determinant f)) col_set relevant_fds) relevant_fds of
           Some f \<Rightarrow>
             (let det = set (determinant f);
                  r1_cols = sorted_list_of_set (det \<union> {dependent f});
                  r2_cols = sorted_list_of_set ((col_set - {dependent f}) \<union> det)
              in Option.bind (bcnf_decompose candidate_keys r1_cols relevant_fds) (\<lambda>r1_tables.
                 Option.bind (bcnf_decompose candidate_keys r2_cols relevant_fds) (\<lambda>r2_tables.
                 Some (r1_tables @ r2_tables))))
         | None \<Rightarrow> Some [(cols, find_key cols fds candidate_keys)])"

declare bcnf_decompose.simps [code]

definition decompose_bcnf ::
  "attr list \<Rightarrow> fd list \<Rightarrow> candidate_key list \<Rightarrow> table list option" where
  "decompose_bcnf cols fds candidate_keys =
     map_option
       (\<lambda>tables.
          map (\<lambda>(tcols, pk).
                 \<lparr>name = (if length tables > 1
                           then generate_table_name pk (filter (\<lambda>c. c \<notin> set pk) tcols)
                           else ''main''),
                  columns = tcols,
                  primary_key = pk,
                  source_fd = None\<rparr>)
              tables)
       (bcnf_decompose candidate_keys cols fds)"

section \<open>Data frames\<close>

text \<open>
  The scripts read a CSV file into a pandas data frame. A frame is its list of column
  labels and its rows; a cell is a number, a string, or the missing value \<^verbatim>\<open>NaN\<close>.
  \<^verbatim>\<open>read_csv\<close> yields distinct column labels and pads short rows with \<^verbatim>\<open>NaN\<close>.
\<close>

datatype cell = NaN | Num int | Str string

record frame =
  df_columns :: "attr list"
  df_rows :: "cell list list"

datatype py_error = KeyError | ValueError | ZeroDivisionError | RecursionError

fun index_of :: "attr list \<Rightarrow> attr \<Rightarrow> nat option" where
  "index_of [] c = None"
| "index_of (x # xs) c = (if x = c then Some 0 else map_option Suc (index_of xs c))"

definition cell_of :: "cell list \<Rightarrow> nat \<Rightarrow> cell" where
  "cell_of r i = (if i < length r then r ! i else NaN)"

text \<open>The value of a row under a column label (the first column of that label).\<close>

definition row_value :: "frame \<Rightarrow> cell list \<Rightarrow> attr \<Rightarrow> cell" where
  "row_value df r c = (case index_of (df_columns df) c of Some i \<Rightarrow> cell_of r i | None \<Rightarrow> NaN)"

definition row_values :: "frame \<Rightarrow> cell list \<Rightarrow> attr list \<Rightarrow> cell list" where
  "row_values df r cs = map (row_value df r) cs"

text \<open>\<^verbatim>\<open>df[c]\<close>, the column as a series.\<close>

definition column :: "frame \<Rightarrow> attr \<Rightarrow> cell list" where
  "column df c = map (\<lambda>r. row_value df r c) (df_rows df)"

text \<open>\<^verbatim>\<open>df[c].nunique()\<close> counts the distinct values that are not \<^verbatim>\<open>NaN\<close>.\<close>

definition nunique :: "cell list \<Rightarrow> nat" where
  "nunique vs = length (remdups (filter (\<lambda>v. v \<noteq> NaN) vs))"

text \<open>\<^verbatim>\<open>df[cols]\<close> with a list of labels: \<^verbatim>\<open>KeyError\<close> when a label is not a column.\<close>

definition select :: "frame \<Rightarrow> attr list \<Rightarrow> py_error + frame" where
  "select df cs =
     (if set cs \<subseteq> set (df_columns df)
      then Inr \<lparr>df_columns = cs, df_rows = map (\<lambda>r. row_values df r cs) (df_rows df)\<rparr>
      else Inl KeyError)"

text \<open>\<^verbatim>\<open>drop_duplicates()\<close> keeps the first of equal rows; \<^verbatim>\<open>NaN\<close> equals \<^verbatim>\<open>NaN\<close> there.\<close>

fun keep_first :: "'a list \<Rightarrow> 'a list" where
  "keep_first [] = []"
| "keep_first (x # xs) = x # keep_first (filter (\<lambda>y. y \<noteq> x) xs)"

definition drop_duplicates :: "frame \<Rightarrow> frame" where
  "drop_duplicates df = df\<lparr>df_rows := keep_first (df_rows df)\<rparr>"

text \<open>
  \<^verbatim>\<open>sort_values(by=pk)\<close> looks every label of \<^verbatim>\<open>pk\<close> up among the columns of the frame:
  a label that is no column raises \<^verbatim>\<open>KeyError\<close>, a label carried by more than one
  column raises \<^verbatim>\<open>ValueError\<close> (``The column label ... is not unique''). The rows are
  then ordered by their key values, missing values last. The cells of a column read from
  a CSV file are all numbers or all strings; the order pandas gives rows of equal key is
  not fixed, and the model keeps them in place.
\<close>

fun check_labels :: "attr list \<Rightarrow> attr list \<Rightarrow> py_error option" where
  "check_labels cols [] = None"
| "check_labels cols (k # ks) =
     (if k \<notin> set cols then Some KeyError
      else if count_list cols k > 1 then Some ValueError
      else check_labels cols ks)"

definition cell_key :: "cell \<Rightarrow> nat \<times> int \<times> string" where
  "cell_key v = (case v of Num n \<Rightarrow> (0, n, []) | Str s \<Rightarrow> (1, 0, s) | NaN \<Rightarrow> (2, 0, []))"

definition sort_values :: "frame \<Rightarrow> attr list \<Rightarrow> py_error + frame" where
  "sort_values df by =
     (case check_labels (df_columns df) by of
        Some e \<Rightarrow> Inl e
      | None \<Rightarrow>
          Inr (df\<lparr>df_rows := sort_key (\<lambda>r. map cell_key (row_values df r by)) (df_rows df)\<rparr>))"

section \<open>Dependency discovery and candidate keys (analyze.py)\<close>

text \<open>
  Confidence values are floats, IEEE binary64 numbers. A float is modelled by the
  rational it denotes. \<open>fl\<close> rounds a rational to the nearest number with a significand
  of 53 binary digits, ties to the even significand, as every float operation does with
  its exact result; the exponent range plays no role for the magnitudes that occur here.
\<close>

definition round_half_even :: "rat \<Rightarrow> int" where
  "round_half_even x =
     (let f = \<lfloor>x\<rfloor>; d = x - of_int f
      in if d < 1 / 2 then f else if d > 1 / 2 then f + 1 else if even f then f else f + 1)"

definition pow2 :: "int \<Rightarrow> rat" where
  "pow2 k = (if k \<ge> 0 then 2 ^ nat k else 1 / 2 ^ nat (- k))"

text \<open>The binary exponent of a number that is not zero: \<open>2 ^ e \<le> |x| < 2 ^ (e + 1)\<close>.\<close>

definition exponent :: "rat \<Rightarrow> int" where
  "exponent x =
     (case quotient_of \<bar>x\<bar> of (p, q) \<Rightarrow>
        let e = bitlen p - bitlen q in if pow2 e \<le> \<bar>x\<bar> then e else e - 1)"

definition fl :: "rat \<Rightarrow> rat" where
  "fl x = (if x = 0 then 0
           else let s = pow2 (52 - exponent x) in of_int (round_half_even (x * s)) / s)"

definition fsub :: "rat \<Rightarrow> rat \<Rightarrow> rat" where
  "fsub a b = fl (a - b)"

definition fmul :: "rat \<Rightarrow> rat \<Rightarrow> rat" where
  "fmul a b = fl (a * b)"

definition fdiv :: "rat \<Rightarrow> rat \<Rightarrow> rat" where
  "fdiv a b = fl (a / b)"

text \<open>
  \<^verbatim>\<open>round(confidence, 4)\<close> on a NumPy float multiplies by \<open>10000.0\<close>, rounds to the
  nearest integer, ties to even, and divides by \<open>10000.0\<close>.
\<close>

definition round4 :: "rat \<Rightarrow> rat" where
  "round4 x = fdiv (of_int (round_half_even (fmul x 10000))) 10000"

record fd_check =
  holds :: bool
  confidence :: rat
  violations :: nat
  total_groups :: "nat option"

text \<open>Every row as the pair of its determinant values and its dependent value.\<close>

definition keyed_rows :: "frame \<Rightarrow> attr list \<Rightarrow> attr \<Rightarrow> (cell list \<times> cell) list" where
  "keyed_rows df det dep = map (\<lambda>r. (row_values df r det, row_value df r dep)) (df_rows df)"

text \<open>\<^verbatim>\<open>df_clean\<close>: the rows without a missing value in the tested columns.\<close>

definition clean_rows :: "frame \<Rightarrow> attr list \<Rightarrow> attr \<Rightarrow> (cell list \<times> cell) list" where
  "clean_rows df det dep =
     (let keyed = keyed_rows df det dep in
      if list_ex (\<lambda>(k, v). NaN \<in> set k \<or> v = NaN) keyed
      then filter (\<lambda>(k, v). NaN \<notin> set k \<and> v \<noteq> NaN) keyed
      else keyed)"

text \<open>
  \<^verbatim>\<open>df_clean.groupby(determinant)[dependent].nunique()\<close>: one entry per distinct
  determinant value, with the number of distinct dependent values of its rows.
\<close>

definition groups :: "(cell list \<times> cell) list \<Rightarrow> (cell list \<times> nat) list" where
  "groups df_clean =
     map (\<lambda>k. (k, nunique (map snd (filter (\<lambda>(k', v). k' = k) df_clean))))
       (remdups (map fst df_clean))"

definition check_fd :: "frame \<Rightarrow> attr list \<Rightarrow> attr \<Rightarrow> py_error + fd_check" where
  "check_fd df det dep =
     (if \<not> set (det @ [dep]) \<subseteq> set (df_columns df) then Inl KeyError
      else
        let df_clean = clean_rows df det dep in
        if length df_clean = 0
        then Inr \<lparr>holds = False, confidence = 0, violations = 0, total_groups = None\<rparr>
        else if det = [] then Inl ValueError
        else
          let gs = groups df_clean;
              viol = length (filter (\<lambda>(k, n). n > 1) gs);
              total = length gs;
              conf = (if total > 0
                      then fsub 1 (fdiv (fl (of_nat viol)) (fl (of_nat total)))
                      else 0)
          in Inr \<lparr>holds = (viol = 0), confidence = round4 conf,
                  violations = viol, total_groups = Some total\<rparr>)"

datatype fd_status = Confirmed | NeedsReview

text \<open>
  A discovered dependency: \<^verbatim>\<open>{"determinant": ..., "dependent": ..., **result, "status": ...}\<close>.
\<close>

record detected_fd = fd +
  fd_result :: fd_check
  status :: fd_status

definition found :: "attr list \<Rightarrow> attr \<Rightarrow> fd_check \<Rightarrow> detected_fd" where
  "found det dep res =
     \<lparr>determinant = det, dependent = dep, fd_result = res,
      status = (if confidence res = 1 then Confirmed else NeedsReview)\<rparr>"

text \<open>The loop over single-column determinants, on the list of pairs still to test.\<close>

fun detect_single ::
  "frame \<Rightarrow> rat \<Rightarrow> (attr \<times> attr) list \<Rightarrow> detected_fd list \<Rightarrow> py_error + detected_fd list" where
  "detect_single df threshold [] fds = Inr fds"
| "detect_single df threshold ((det_col, dep_col) # rest) fds =
     (case check_fd df [det_col] dep_col of
        Inl e \<Rightarrow> Inl e
      | Inr res \<Rightarrow>
          detect_single df threshold rest
            (if confidence res \<ge> threshold then fds @ [found [det_col] dep_col res] else fds))"

text \<open>The loop over two-column determinants.\<close>

fun detect_pair ::
  "frame \<Rightarrow> rat \<Rightarrow> ((attr \<times> attr) \<times> attr) list \<Rightarrow> detected_fd list \<Rightarrow>
     py_error + detected_fd list" where
  "detect_pair df threshold [] fds = Inr fds"
| "detect_pair df threshold (((d0, d1), dep_col) # rest) fds =
     (case check_fd df [d0, d1] dep_col of
        Inl e \<Rightarrow> Inl e
      | Inr res \<Rightarrow>
          detect_pair df threshold rest
            (if confidence res \<ge> threshold
             then (let single_determines =
                         list_ex (\<lambda>f. determinant f = [d0] \<and> dependent f = dep_col
                                      \<or> determinant f = [d1] \<and> dependent f = dep_col)
                           (filter (\<lambda>f. confidence (fd_result f) = 1) fds)
                   in if \<not> single_determines then fds @ [found [d0, d1] dep_col res] else fds)
             else fds))"

text \<open>\<^verbatim>\<open>itertools.combinations(xs, 2)\<close>\<close>

fun combinations2 :: "'a list \<Rightarrow> ('a \<times> 'a) list" where
  "combinations2 [] = []"
| "combinations2 (x # xs) = map (Pair x) xs @ combinations2 xs"

text \<open>
  \<^verbatim>\<open>[c for c in columns if df[c].nunique() / len(df) > 0.5]\<close>: the division raises on a
  frame without rows as soon as there is a column to test.
\<close>

definition high_card_cols :: "frame \<Rightarrow> py_error + attr list" where
  "high_card_cols df =
     (if df_columns df \<noteq> [] \<and> length (df_rows df) = 0 then Inl ZeroDivisionError
      else Inr (filter (\<lambda>c. fdiv (of_nat (nunique (column df c))) (of_nat (length (df_rows df)))
                             > 1 / 2)
                  (df_columns df)))"

definition detect_fds :: "frame \<Rightarrow> rat \<Rightarrow> py_error + detected_fd list" where
  "detect_fds df confidence_threshold =
     (let cols = df_columns df;
          singles = concat (map (\<lambda>det_col.
                      map (Pair det_col) (filter (\<lambda>dep_col. det_col \<noteq> dep_col) cols)) cols)
      in case detect_single df confidence_threshold singles [] of
           Inl e \<Rightarrow> Inl e
         | Inr fds \<Rightarrow>
             (case high_card_cols df of
                Inl e \<Rightarrow> Inl e
              | Inr high \<Rightarrow>
                  detect_pair df confidence_threshold
                    (concat (map (\<lambda>det_cols.
                       map (Pair det_cols)
                         (filter (\<lambda>dep_col. dep_col \<noteq> fst det_cols \<and> dep_col \<noteq> snd det_cols) cols))
                       (combinations2 high)))
                    fds))"

text \<open>
  The loop over \<^verbatim>\<open>columns\<close> in \<^verbatim>\<open>find_candidate_keys\<close> that adds the columns
  without repeated or missing values as one-column keys.
\<close>

fun unique_keys :: "frame \<Rightarrow> attr list \<Rightarrow> candidate_key list \<Rightarrow> candidate_key list" where
  "unique_keys df [] candidate_keys = candidate_keys"
| "unique_keys df (col # rest) candidate_keys =
     unique_keys df rest
       (if nunique (column df col) = length (df_rows df) \<and> NaN \<notin> set (column df col)
           \<and> \<not> list_ex (\<lambda>ck. set (ck_columns ck) = {col}) candidate_keys
        then candidate_keys @ [\<lparr>ck_columns = [col], is_minimal = True\<rparr>]
        else candidate_keys)"

definition find_candidate_keys :: "frame \<Rightarrow> detected_fd list \<Rightarrow> candidate_key list" where
  "find_candidate_keys df fds =
     (let cols = set (df_columns df);
          all_dependents = set (map dependent (filter (\<lambda>f. confidence (fd_result f) = 1) fds));
          must_be_in_key = cols - all_dependents;
          determined = set (map dependent
                         (filter (\<lambda>f. confidence (fd_result f) = 1
                                     \<and> set (determinant f) \<subseteq> must_be_in_key) fds));
          candidate_keys =
            (if must_be_in_key \<noteq> {} \<and> determined \<union> must_be_in_key = cols
             then [\<lparr>ck_columns = sorted_list_of_set must_be_in_key, is_minimal = True\<rparr>]
             else [])
      in unique_keys df (sorted_list_of_set cols) candidate_keys)"

section \<open>Writing the tables (normalize.py) and replaying them (transform.py)\<close>

record foreign_key =
  child_table :: string
  fk_column :: attr
  parent_table :: string
  parent_column :: attr

definition compute_foreign_keys :: "table list \<Rightarrow> foreign_key list" where
  "compute_foreign_keys tbls =
     concat (map (\<lambda>t.
       let non_pk_cols = filter (\<lambda>c. c \<notin> set (primary_key t)) (columns t) in
       concat (map (\<lambda>other.
         if name other = name t then []
         else map (\<lambda>col. \<lparr>child_table = name t, fk_column = col,
                            parent_table = name other, parent_column = col\<rparr>)
                (filter (\<lambda>col. col \<in> set (primary_key other) \<and> card (set (primary_key other)) = 1)
                   non_pk_cols))
         tbls))
       tbls)"

text \<open>The transform configuration, as \<^verbatim>\<open>generate_transform_config\<close> builds it.\<close>

record table_def =
  t_name :: string
  t_columns :: "attr list"
  t_primary_key :: "attr list"

record transform_config =
  cfg_version :: string
  cfg_original_columns :: "attr list"
  cfg_tables :: "table_def list"
  cfg_foreign_keys :: "foreign_key list option"

definition generate_transform_config ::
  "table list \<Rightarrow> foreign_key list \<Rightarrow> attr list \<Rightarrow> transform_config" where
  "generate_transform_config tbls fks original =
     \<lparr>cfg_version = ''1.0'',
      cfg_original_columns = original,
      cfg_tables = map (\<lambda>t. \<lparr>t_name = name t, t_columns = columns t,
                                t_primary_key = primary_key t\<rparr>) tbls,
      cfg_foreign_keys = Some fks\<rparr>"

text \<open>
  The files under \<^verbatim>\<open>tables/\<close>, in the order they are written: \<open>(name, content)\<close> stands
  for \<^verbatim>\<open>name.csv\<close>; a later entry of the same name overwrites an earlier one.
\<close>

type_synonym files = "(string \<times> frame) list"

text \<open>
  The loop of \<^verbatim>\<open>normalize\<close> that writes \<^verbatim>\<open>df[table["columns"]].drop_duplicates()\<close> for
  every table. An exception leaves the files written so far.
\<close>

fun write_tables :: "frame \<Rightarrow> table list \<Rightarrow> files \<Rightarrow> (py_error \<times> files) + files" where
  "write_tables df [] out = Inr out"
| "write_tables df (t # ts) out =
     (case select df (columns t) of
        Inl e \<Rightarrow> Inl (e, out)
      | Inr table_df \<Rightarrow> write_tables df ts (out @ [(name t, drop_duplicates table_df)]))"

record normalize_config =
  nc_functional_dependencies :: "detected_fd list"
  nc_candidate_keys :: "candidate_key list"

text \<open>\<^verbatim>\<open>str.upper()\<close> on ASCII letters.\<close>

definition upper :: "string \<Rightarrow> string" where
  "upper s = map (\<lambda>c. if CHR ''a'' \<le> c \<and> c \<le> CHR ''z''
                        then char_of (of_char c - (32 :: nat)) else c) s"

datatype normalize_result =
    Unsupported
  | Normalize_raised py_error files
  | Normalized files transform_config

text \<open>
  \<^verbatim>\<open>normalize\<close>: the dependencies are filtered to the confirmed ones, the columns are
  decomposed, the tables are written and the transform configuration is produced. A BCNF
  recursion that does not end exhausts the interpreter's stack. The schema, diagram and
  summary texts written next to the tables are left out.
\<close>

definition normalize :: "frame \<Rightarrow> normalize_config \<Rightarrow> string \<Rightarrow> normalize_result" where
  "normalize df config target_nf =
     (let cols = df_columns df;
          confirmed_fds =
            map fd.truncate
              (filter (\<lambda>f. status f = Confirmed \<or> confidence (fd_result f) = 1)
                 (nc_functional_dependencies config));
          decomposed =
            (if upper target_nf \<in> {''3NF'', ''3''}
             then Some (Inr (decompose_3nf cols confirmed_fds (nc_candidate_keys config)))
             else if upper target_nf \<in> {''BCNF'', ''BC''}
             then Some (case decompose_bcnf cols confirmed_fds (nc_candidate_keys config) of
                          Some tbls \<Rightarrow> Inr tbls | None \<Rightarrow> Inl RecursionError)
             else None)
      in case decomposed of
           None \<Rightarrow> Unsupported
         | Some (Inl e) \<Rightarrow> Normalize_raised e []
         | Some (Inr tbls) \<Rightarrow>
             (case write_tables df tbls [] of
                Inl (e, out) \<Rightarrow> Normalize_raised e out
              | Inr out \<Rightarrow>
                  Normalized out
                    (generate_transform_config tbls (compute_foreign_keys tbls) cols)))"

subsection \<open>The replayer\<close>

fun join_comma :: "string list \<Rightarrow> string" where
  "join_comma [] = []"
| "join_comma [x] = x"
| "join_comma (x # y # ys) = x @ '', '' @ join_comma (y # ys)"

text \<open>The text of a set of names inside a message, \<^verbatim>\<open>{'a', 'b'}\<close>.\<close>

definition set_repr :: "attr set \<Rightarrow> string" where
  "set_repr s =
     ''{'' @ join_comma (map (\<lambda>c. [CHR 0x27] @ c @ [CHR 0x27]) (sorted_list_of_set s)) @ ''}''"

definition validate_input :: "frame \<Rightarrow> transform_config \<Rightarrow> string list" where
  "validate_input df config =
     (let expected_cols = set (cfg_original_columns config);
          actual_cols = set (df_columns df);
          missing = expected_cols - actual_cols;
          extra = actual_cols - expected_cols
      in (if missing \<noteq> {} then [''Missing columns: '' @ set_repr missing] else []) @
         (if extra \<noteq> {} then [''Extra columns (will be ignored): '' @ set_repr extra] else []))"

text \<open>\<^verbatim>\<open>sub in s\<close> on strings.\<close>

fun contains :: "string \<Rightarrow> string \<Rightarrow> bool" where
  "contains sub [] = (sub = [])"
| "contains sub (c # cs) = (take (length sub) (c # cs) = sub \<or> contains sub cs)"

datatype message =
    Warning string
  | Strict_abort
  | Skipping string "attr set"
  | Created string nat
  | Orphans foreign_key nat

record run =
  written :: files
  printed :: "message list"

text \<open>
  The loop over \<^verbatim>\<open>config["tables"]\<close>: a table with a column the data lacks is skipped
  with a message; otherwise its columns are projected, deduplicated, sorted by the
  primary key and written. An exception ends the run with the files written so far.
\<close>

fun transform_tables :: "frame \<Rightarrow> table_def list \<Rightarrow> run \<Rightarrow> (py_error \<times> run) + run" where
  "transform_tables df [] st = Inr st"
| "transform_tables df (tc # rest) st =
     (let available_cols = filter (\<lambda>c. c \<in> set (df_columns df)) (t_columns tc) in
      if length available_cols \<noteq> length (t_columns tc)
      then transform_tables df rest
             (st\<lparr>printed := printed st @
                    [Skipping (t_name tc) (set (t_columns tc) - set available_cols)]\<rparr>)
      else
        (case select df (t_columns tc) of
           Inl e \<Rightarrow> Inl (e, st)
         | Inr projected \<Rightarrow>
             (case sort_values (drop_duplicates projected) (t_primary_key tc) of
                Inl e \<Rightarrow> Inl (e, st)
              | Inr table_df \<Rightarrow>
                  transform_tables df rest
                    (st\<lparr>written := written st @ [(t_name tc, table_df)],
                        printed := printed st @
                          [Created (t_name tc) (length (df_rows table_df))]\<rparr>))))"

text \<open>
  \<^verbatim>\<open>validate_foreign_keys\<close> reads the written files back; a key whose child or parent
  file does not exist is passed over, a column that a file lacks raises \<^verbatim>\<open>KeyError\<close>.
\<close>

definition read_file :: "files \<Rightarrow> string \<Rightarrow> frame option" where
  "read_file fs n = map_of (rev fs) n"

definition series :: "frame \<Rightarrow> attr \<Rightarrow> py_error + cell list" where
  "series df c = (if c \<in> set (df_columns df) then Inr (column df c) else Inl KeyError)"

fun validate_foreign_keys :: "files \<Rightarrow> foreign_key list \<Rightarrow> py_error + message list" where
  "validate_foreign_keys fs [] = Inr []"
| "validate_foreign_keys fs (fk # rest) =
     (case (read_file fs (child_table fk), read_file fs (parent_table fk)) of
        (Some child_df, Some parent_df) \<Rightarrow>
          (case series child_df (fk_column fk) of
             Inl e \<Rightarrow> Inl e
           | Inr child_col \<Rightarrow>
               (case series parent_df (parent_column fk) of
                  Inl e \<Rightarrow> Inl e
                | Inr parent_col \<Rightarrow>
                    (let orphans = (set child_col - {NaN}) - (set parent_col - {NaN}) in
                     case validate_foreign_keys fs rest of
                       Inl e \<Rightarrow> Inl e
                     | Inr errors \<Rightarrow>
                         Inr ((if orphans \<noteq> {} then [Orphans fk (card orphans)] else []) @ errors))))
      | _ \<Rightarrow> validate_foreign_keys fs rest)"

datatype transform_result =
    Exited run
  | Transform_raised py_error run
  | Transformed run

definition transform :: "frame \<Rightarrow> transform_config \<Rightarrow> bool \<Rightarrow> transform_result" where
  "transform df config strict =
     (let errors = validate_input df config;
          st = \<lparr>written = [], printed = map Warning errors\<rparr>
      in if errors \<noteq> [] \<and> strict \<and> list_ex (contains ''Missing'') errors
         then Exited (st\<lparr>printed := printed st @ [Strict_abort]\<rparr>)
         else
           (case transform_tables df (cfg_tables config) st of
              Inl (e, st') \<Rightarrow> Transform_raised e st'
            | Inr st' \<Rightarrow>
                (case cfg_foreign_keys config of
                   None \<Rightarrow> Transformed st'
                 | Some fks \<Rightarrow>
                     (case validate_foreign_keys (written st') fks of
                        Inl e \<Rightarrow> Transform_raised e st'
                      | Inr fk_errors \<Rightarrow>
                          Transformed (st'\<lparr>printed := printed st' @ fk_errors\<rparr>)))))"

section \<open>Notions used in the statements and proofs\<close>

text \<open>A set of attributes that every dependency of the list maps into itself.\<close>

definition closed_under :: "fd list \<Rightarrow> attr set \<Rightarrow> bool" where
  "closed_under fds c \<longleftrightarrow> (\<forall>f \<in> set fds. set (determinant f) \<subseteq> c \<longrightarrow> dependent f \<in> c)"

text \<open>The first dependency that \<^verbatim>\<open>bcnf_decompose\<close> finds violated on a column list.\<close>

abbreviation violating :: "attr list \<Rightarrow> fd list \<Rightarrow> fd option" where
  "violating cols fds \<equiv>
     find (\<lambda>f. \<not> is_superkey (set (determinant f)) (set cols) (relevant (set cols) fds))
       (relevant (set cols) fds)"

text \<open>What every table of the BCNF recursion satisfies, relative to the column list and the
  dependencies of the call that returned it.\<close>

definition table_ok :: "fd list \<Rightarrow> attr list \<Rightarrow> attr list \<times> attr list \<Rightarrow> bool" where
  "table_ok fds cols t \<longleftrightarrow>
     set (fst t) \<subseteq> set cols \<and> set (snd t) \<subseteq> set (fst t) \<and>
     (\<forall>f \<in> set (relevant (set (fst t)) fds).
        is_superkey (set (determinant f)) (set (fst t)) (relevant (set (fst t)) fds))"

text \<open>The columns of a list of tables.\<close>

definition all_columns :: "table list \<Rightarrow> attr set" where
  "all_columns tables = set (concat (map columns tables))"

text \<open>The attributes named by a dependency list.\<close>

definition fd_attrs :: "fd list \<Rightarrow> attr set" where
  "fd_attrs fds = set (concat (map (\<lambda>f. determinant f @ [dependent f]) fds))"

text \<open>The attributes of the dependency groups of the 3NF synthesis.\<close>

definition group_attrs :: "(attr list \<times> attr list) list \<Rightarrow> attr set" where
  "group_attrs gs = set (concat (map (\<lambda>(det, deps). det @ deps) gs))"




text \<open>
  The confidence \<open>check_fd\<close> reports for a number of violating partitions out of a number
  of partitions.
\<close>

definition float_confidence :: "nat \<Rightarrow> nat \<Rightarrow> rat" where
  "float_confidence viol n = round4 (fsub 1 (fdiv (fl (of_nat viol)) (fl (of_nat n))))"



text \<open>A table definition whose key labels each name exactly one of its columns.\<close>

definition sortable :: "table_def \<Rightarrow> bool" where
  "sortable tc \<longleftrightarrow> check_labels (t_columns tc) (t_primary_key tc) = None"

definition present :: "frame \<Rightarrow> table_def \<Rightarrow> bool" where
  "present df tc \<longleftrightarrow> set (t_columns tc) \<subseteq> set (df_columns df)"

section \<open>Properties of the closure engine\<close>

declare closure_loop.simps [simp del]

lemma closure_pass_keeps_flag: "snd p \<Longrightarrow> snd (closure_pass fs p)"
proof (induction fs arbitrary: p)
  case Nil
  then show ?case by (cases p) simp
next
  case (Cons f fs)
  obtain c ch where p: "p = (c, ch)" by (cases p)
  from Cons.prems have ch by (simp add: p)
  then have "snd (closure_pass fs (c, ch))" by (intro Cons.IH) simp
  moreover have "snd (closure_pass fs (insert (dependent f) c, True))" by (intro Cons.IH) simp
  ultimately show ?case unfolding p by simp
qed

lemma closure_pass_quiet:
  "\<not> snd (closure_pass fs p) \<Longrightarrow> closure_pass fs p = p \<and> closed_under fs (fst p)"
proof (induction fs arbitrary: p)
  case Nil
  show ?case by (cases p) (simp add: closed_under_def)
next
  case (Cons f fs)
  obtain c ch where p: "p = (c, ch)" by (cases p)
  have no_insert: "\<not> (set (determinant f) \<subseteq> c \<and> dependent f \<notin> c)"
  proof
    assume a: "set (determinant f) \<subseteq> c \<and> dependent f \<notin> c"
    have "snd (closure_pass fs (insert (dependent f) c, True))"
      by (rule closure_pass_keeps_flag) simp
    with a Cons.prems show False unfolding p by simp
  qed
  then have step: "closure_pass (f # fs) p = closure_pass fs p"
    unfolding p by auto
  with Cons.prems have "\<not> snd (closure_pass fs p)" by simp
  from Cons.IH [OF this] have ih: "closure_pass fs p = p" "closed_under fs (fst p)" by simp_all
  from no_insert ih(2) have "closed_under (f # fs) (fst p)"
    unfolding p closed_under_def by auto
  with step ih(1) show ?case by simp
qed

lemma closure_pass_closed:
  "closed_under fs c \<Longrightarrow> closure_pass fs (c, ch) = (c, ch)"
  by (induction fs) (auto simp: closed_under_def)

lemma closure_loop_unfold:
  "closure_pass fds (c, False) = (c', changed) \<Longrightarrow>
     closure_loop fds c = (if changed then closure_loop fds c' else c')"
  by (subst closure_loop.simps) simp

lemma closure_loop_extends: "c \<subseteq> closure_loop fds c"
proof (induction fds c rule: closure_loop.induct)
  case (1 fds c)
  obtain c' changed where eq: "closure_pass fds (c, False) = (c', changed)"
    by (cases "closure_pass fds (c, False)")
  have sub: "c \<subseteq> c'"
    using closure_pass_grows [of "(c, False)" fds] eq by simp
  show ?case
  proof (cases changed)
    case True
    from "1.IH" [OF eq [symmetric] True] sub show ?thesis
      unfolding closure_loop_unfold [OF eq] using True by auto
  next
    case False
    with sub show ?thesis unfolding closure_loop_unfold [OF eq] by simp
  qed
qed

lemma closure_loop_closed: "closed_under fds (closure_loop fds c)"
proof (induction fds c rule: closure_loop.induct)
  case (1 fds c)
  obtain c' changed where eq: "closure_pass fds (c, False) = (c', changed)"
    by (cases "closure_pass fds (c, False)")
  show ?case
  proof (cases changed)
    case True
    from "1.IH" [OF eq [symmetric] True] show ?thesis
      unfolding closure_loop_unfold [OF eq] using True by simp
  next
    case False
    then have "\<not> snd (closure_pass fds (c, False))" by (simp add: eq)
    from closure_pass_quiet [OF this] have "closed_under fds c" "c' = c"
      using eq by simp_all
    then show ?thesis unfolding closure_loop_unfold [OF eq] using False by simp
  qed
qed

lemma closure_loop_of_closed: "closed_under fds c \<Longrightarrow> closure_loop fds c = c"
  by (subst closure_loop.simps) (simp add: closure_pass_closed)

lemma closure_pass_within:
  "closed_under fds d \<Longrightarrow> set fs \<subseteq> set fds \<Longrightarrow> fst p \<subseteq> d \<Longrightarrow> fst (closure_pass fs p) \<subseteq> d"
proof (induction fs arbitrary: p)
  case Nil
  then show ?case by (cases p) simp
next
  case (Cons f fs)
  obtain c ch where p: "p = (c, ch)" by (cases p)
  from Cons.prems have c: "c \<subseteq> d" and f: "f \<in> set fds" and fs: "set fs \<subseteq> set fds"
    by (simp_all add: p)
  have a: "fst (closure_pass fs (c, ch)) \<subseteq> d"
    using Cons.IH [OF Cons.prems(1) fs, of "(c, ch)"] c by simp
  have b: "set (determinant f) \<subseteq> c \<Longrightarrow> fst (closure_pass fs (insert (dependent f) c, True)) \<subseteq> d"
  proof -
    assume "set (determinant f) \<subseteq> c"
    with c f Cons.prems(1) have "dependent f \<in> d" unfolding closed_under_def by blast
    with c show ?thesis using Cons.IH [OF Cons.prems(1) fs, of "(insert (dependent f) c, True)"] by simp
  qed
  from a b show ?case unfolding p by simp
qed

lemma closure_loop_least:
  "closed_under fds d \<Longrightarrow> c \<subseteq> d \<Longrightarrow> closure_loop fds c \<subseteq> d"
proof (induction fds c rule: closure_loop.induct)
  case (1 fds c)
  obtain c' changed where eq: "closure_pass fds (c, False) = (c', changed)"
    by (cases "closure_pass fds (c, False)")
  have sub: "c' \<subseteq> d"
    using closure_pass_within [OF "1.prems"(1) subset_refl, of "(c, False)"] "1.prems"(2) eq by simp
  show ?case
  proof (cases changed)
    case True
    from "1.IH" [OF eq [symmetric] True "1.prems"(1) sub] show ?thesis
      unfolding closure_loop_unfold [OF eq] using True by simp
  next
    case False
    with sub show ?thesis unfolding closure_loop_unfold [OF eq] by simp
  qed
qed

text \<open>
  C6. For every attribute set \<open>S\<close> and dependency list \<open>F\<close>, the closure of the closure is
  the closure, and \<open>S\<close> is contained in its closure.
\<close>

theorem closure_idempotent_extensive:
  "compute_closure (compute_closure S F) F = compute_closure S F \<and> S \<subseteq> compute_closure S F"
  unfolding compute_closure_def
  using closure_loop_of_closed [OF closure_loop_closed, of F S] closure_loop_extends [of S F]
  by simp

section \<open>Properties of the BCNF decomposition\<close>

lemma relevant_mem:
  "f \<in> set (relevant cs fds) \<longleftrightarrow> f \<in> set fds \<and> set (determinant f) \<subseteq> cs \<and> dependent f \<in> cs"
  by (auto simp: relevant_def)

lemma relevant_relevant: "cs' \<subseteq> cs \<Longrightarrow> relevant cs' (relevant cs fds) = relevant cs' fds"
  unfolding relevant_def filter_filter by (rule filter_cong) auto

lemma find_Some_holds: "find P xs = Some x \<Longrightarrow> P x \<and> x \<in> set xs"
  by (induction xs) (auto split: if_splits)

lemma bcnf_decompose_terminal:
  "violating cols fds = None \<Longrightarrow>
     bcnf_decompose cks cols fds = Some [(cols, find_key cols fds cks)]"
  by (subst bcnf_decompose.simps) (simp add: Let_def)

lemma bcnf_decompose_split:
  "violating cols fds = Some f \<Longrightarrow>
     bcnf_decompose cks cols fds =
       Option.bind
         (bcnf_decompose cks (sorted_list_of_set (set (determinant f) \<union> {dependent f}))
            (relevant (set cols) fds))
         (\<lambda>r1. Option.bind
            (bcnf_decompose cks
               (sorted_list_of_set ((set cols - {dependent f}) \<union> set (determinant f)))
               (relevant (set cols) fds))
            (\<lambda>r2. Some (r1 @ r2)))"
  by (subst bcnf_decompose.simps) (simp add: Let_def)

lemma dependent_in_closure:
  "f \<in> set fds \<Longrightarrow> dependent f \<in> compute_closure (set (determinant f)) fds"
  using closure_loop_closed [of fds "set (determinant f)"]
    closure_loop_extends [of "set (determinant f)" fds]
  unfolding compute_closure_def closed_under_def by blast

lemma violating_first_part:
  assumes "violating cols fds = Some f"
  shows "set (determinant f) \<union> {dependent f} \<subset> set cols"
proof -
  let ?rel = "relevant (set cols) fds"
  from find_Some_holds [OF assms]
  have nk: "\<not> is_superkey (set (determinant f)) (set cols) ?rel" and mem: "f \<in> set ?rel"
    by simp_all
  from mem have sub: "set (determinant f) \<union> {dependent f} \<subseteq> set cols"
    by (simp add: relevant_mem)
  have "set (determinant f) \<union> {dependent f} \<subseteq> compute_closure (set (determinant f)) ?rel"
    using dependent_in_closure [OF mem] closure_loop_extends [of "set (determinant f)" ?rel]
    by (simp add: compute_closure_def)
  with nk have "set (determinant f) \<union> {dependent f} \<noteq> set cols"
    unfolding is_superkey_def by metis
  with sub show ?thesis by blast
qed

lemma violating_second_part:
  assumes "violating cols fds = Some f" and "dependent f \<notin> set (determinant f)"
  shows "(set cols - {dependent f}) \<union> set (determinant f) \<subset> set cols"
proof -
  from find_Some_holds [OF assms(1)] have "f \<in> set (relevant (set cols) fds)" by simp
  then have "set (determinant f) \<subseteq> set cols" "dependent f \<in> set cols"
    by (simp_all add: relevant_mem)
  with assms(2) show ?thesis by blast
qed

lemma bcnf_decompose_returns:
  "\<forall>f \<in> set fds. dependent f \<notin> set (determinant f) \<Longrightarrow>
     \<exists>tables. bcnf_decompose cks cols fds = Some tables"
proof (induction "card (set cols)" arbitrary: cols fds rule: less_induct)
  case less
  show ?case
  proof (cases "violating cols fds")
    case None
    then show ?thesis by (simp add: bcnf_decompose_terminal)
  next
    case (Some f)
    let ?rel = "relevant (set cols) fds"
    let ?r1 = "sorted_list_of_set (set (determinant f) \<union> {dependent f})"
    let ?r2 = "sorted_list_of_set ((set cols - {dependent f}) \<union> set (determinant f))"
    have pre: "\<forall>g \<in> set ?rel. dependent g \<notin> set (determinant g)"
      using less.prems by (simp add: relevant_mem)
    from find_Some_holds [OF Some] have "f \<in> set ?rel" by simp
    with pre have nd: "dependent f \<notin> set (determinant f)" by blast
    have "set ?r1 = set (determinant f) \<union> {dependent f}"
      by (rule set_sorted_list_of_set) simp
    then have "set ?r1 \<subset> set cols"
      using violating_first_part [OF Some] by (simp only:)
    then have "card (set ?r1) < card (set cols)"
      by (intro psubset_card_mono) simp_all
    from less.hyps [OF this pre] obtain t1 where t1: "bcnf_decompose cks ?r1 ?rel = Some t1" ..
    have "set ?r2 = (set cols - {dependent f}) \<union> set (determinant f)"
      by (rule set_sorted_list_of_set) simp
    then have "set ?r2 \<subset> set cols"
      using violating_second_part [OF Some nd] by (simp only:)
    then have "card (set ?r2) < card (set cols)"
      by (intro psubset_card_mono) simp_all
    from less.hyps [OF this pre] obtain t2 where t2: "bcnf_decompose cks ?r2 ?rel = Some t2" ..
    show ?thesis
      unfolding bcnf_decompose_split [OF Some] t1 t2 by simp
  qed
qed

lemma first_closing_subset:
  "first_closing cs rel fs = Some det \<Longrightarrow> set fs \<subseteq> set (relevant cs' fds) \<Longrightarrow> set det \<subseteq> cs'"
proof (induction fs)
  case Nil
  then show ?case by simp
next
  case (Cons f fs)
  have "set (sorted_list_of_set (set (determinant f))) = set (determinant f)"
    by (rule set_sorted_list_of_set) simp
  with Cons show ?case
    by (auto simp: relevant_mem split: if_splits)
qed

lemma find_key_subset: "set (find_key cols fds cks) \<subseteq> set cols"
proof (cases "find (\<lambda>ck. set (ck_columns ck) \<subseteq> set cols) cks")
  case (Some ck)
  from find_Some_holds [OF Some] Some show ?thesis by (simp add: find_key_def)
next
  case None
  show ?thesis
  proof (cases "first_closing (set cols) (relevant (set cols) fds) (relevant (set cols) fds)")
    case n: None
    with None show ?thesis by (simp add: find_key_def)
  next
    case s: (Some det)
    from first_closing_subset [OF s subset_refl] None s show ?thesis
      by (simp add: find_key_def)
  qed
qed

lemma table_ok_lift:
  assumes "table_ok (relevant (set cols) fds) cols' t" and "set cols' \<subseteq> set cols"
  shows "table_ok fds cols t"
proof -
  from assms have "set (fst t) \<subseteq> set cols" unfolding table_ok_def by blast
  then have "relevant (set (fst t)) (relevant (set cols) fds) = relevant (set (fst t)) fds"
    by (rule relevant_relevant)
  with assms show ?thesis unfolding table_ok_def by auto
qed

lemma bcnf_decompose_tables:
  assumes "bcnf_decompose cks cols fds = Some tables"
  shows "\<forall>t \<in> set tables. table_ok fds cols t"
proof (rule bcnf_decompose.raw_induct
    [where P = "\<lambda>cks cols fds tables. \<forall>t \<in> set tables. table_ok fds cols t", OF _ assms],
    goal_cases)
  case (1 rec cks cols fds tables)
  note IH = "1"(1) and body = "1"(2)
  show ?case
  proof (cases "violating cols fds")
    case None
    with body have tables: "tables = [(cols, find_key cols fds cks)]"
      by (simp add: Let_def)
    from None have "\<forall>f \<in> set (relevant (set cols) fds).
        is_superkey (set (determinant f)) (set cols) (relevant (set cols) fds)"
      by (auto simp: find_None_iff)
    then show ?thesis
      unfolding tables table_ok_def using find_key_subset [of cols fds cks] by simp
  next
    case (Some f)
    let ?rel = "relevant (set cols) fds"
    let ?r1 = "sorted_list_of_set (set (determinant f) \<union> {dependent f})"
    let ?r2 = "sorted_list_of_set ((set cols - {dependent f}) \<union> set (determinant f))"
    from body Some obtain t1 t2 where
      t1: "rec cks ?r1 ?rel = Some t1" and t2: "rec cks ?r2 ?rel = Some t2"
      and tables: "tables = t1 @ t2"
      by (auto simp: Let_def simp del: sorted_list_of_set.sorted_key_list_of_set_insert_remove split: Option.bind_splits)
    from find_Some_holds [OF Some] have mem: "f \<in> set ?rel" by simp
    have s1: "set ?r1 = set (determinant f) \<union> {dependent f}"
      by (rule set_sorted_list_of_set) simp
    have s2: "set ?r2 = (set cols - {dependent f}) \<union> set (determinant f)"
      by (rule set_sorted_list_of_set) simp
    from mem have sub1: "set ?r1 \<subseteq> set cols" and sub2: "set ?r2 \<subseteq> set cols"
      unfolding s1 s2 by (auto simp: relevant_mem)
    have "\<forall>t \<in> set t1. table_ok fds cols t"
      using IH [OF t1] table_ok_lift [OF _ sub1] by blast
    moreover have "\<forall>t \<in> set t2. table_ok fds cols t"
      using IH [OF t2] table_ok_lift [OF _ sub2] by blast
    ultimately show ?thesis unfolding tables by auto
  qed
qed

text \<open>
  C7. When no dependency has its dependent inside its own determinant, the BCNF
  decomposition returns a result for every column list and dependency list; and whenever
  a violating dependency is found, both column sets of the recursive calls are proper
  subsets of the current column set.
\<close>

theorem bcnf_terminates:
  assumes "\<forall>f \<in> set fds. dependent f \<notin> set (determinant f)"
  shows "(\<exists>tables. decompose_bcnf cols fds candidate_keys = Some tables) \<and>
         (\<forall>cs rs f.
            find (\<lambda>f. \<not> is_superkey (set (determinant f)) (set cs) (relevant (set cs) rs))
              (relevant (set cs) rs) = Some f
            \<and> dependent f \<notin> set (determinant f) \<longrightarrow>
            set (determinant f) \<union> {dependent f} \<subset> set cs \<and>
            (set cs - {dependent f}) \<union> set (determinant f) \<subset> set cs)"
proof
  from bcnf_decompose_returns [OF assms, of candidate_keys cols]
  show "\<exists>tables. decompose_bcnf cols fds candidate_keys = Some tables"
    unfolding decompose_bcnf_def by auto
next
  show "\<forall>cs rs f.
            find (\<lambda>f. \<not> is_superkey (set (determinant f)) (set cs) (relevant (set cs) rs))
              (relevant (set cs) rs) = Some f
            \<and> dependent f \<notin> set (determinant f) \<longrightarrow>
            set (determinant f) \<union> {dependent f} \<subset> set cs \<and>
            (set cs - {dependent f}) \<union> set (determinant f) \<subset> set cs"
    using violating_first_part violating_second_part by blast
qed

theorem bcnf_terminates_witness:
  "list_all (\<lambda>f. dependent f \<notin> set (determinant f)) [\<lparr>determinant = [''b''], dependent = ''c''\<rparr>]
   \<and> decompose_bcnf [''a'', ''b'', ''c''] [\<lparr>determinant = [''b''], dependent = ''c''\<rparr>] [] =
       Some [\<lparr>name = ''cs'', columns = [''b'', ''c''], primary_key = [''b''], source_fd = None\<rparr>,
             \<lparr>name = ''a_b'', columns = [''a'', ''b''], primary_key = [''a'', ''b''], source_fd = None\<rparr>]
   \<and> {''b''} \<union> {''c''} \<subset> {''a'', ''b'', ''c''}
   \<and> ({''a'', ''b'', ''c''} - {''c''}) \<union> {''b''} \<subset> {''a'', ''b'', ''c''}"
proof -
  let ?f = "\<lparr>determinant = [''b''], dependent = ''c''\<rparr>"
  have pre: "\<forall>f \<in> set [?f]. dependent f \<notin> set (determinant f)"
    by simp
  have v: "violating [''a'', ''b'', ''c''] [?f] = Some ?f"
    by code_simp
  have run: "decompose_bcnf [''a'', ''b'', ''c''] [?f] [] =
       Some [\<lparr>name = ''cs'', columns = [''b'', ''c''], primary_key = [''b''], source_fd = None\<rparr>,
             \<lparr>name = ''a_b'', columns = [''a'', ''b''], primary_key = [''a'', ''b''], source_fd = None\<rparr>]"
    by code_simp
  from bcnf_terminates [OF pre, of "[''a'', ''b'', ''c'']" "[]"] v
  have "set (determinant ?f) \<union> {dependent ?f} \<subset> set [''a'', ''b'', ''c''] \<and>
        (set [''a'', ''b'', ''c''] - {dependent ?f}) \<union> set (determinant ?f) \<subset> set [''a'', ''b'', ''c'']"
    by (metis fd.select_convs(1,2) pre list.set_intros(1))
  with run show ?thesis by simp
qed

text \<open>
  C5. For every table returned by the BCNF decomposition, every dependency of the input
  list that lies within the table's columns has a determinant whose closure under the
  dependencies within the table contains all the table's columns.
\<close>

theorem bcnf_tables_have_no_violation:
  assumes "decompose_bcnf cols fds candidate_keys = Some tables"
    and "t \<in> set tables"
    and "f \<in> set fds"
    and "set (determinant f) \<subseteq> set (columns t)"
    and "dependent f \<in> set (columns t)"
  shows "set (columns t) \<subseteq>
           compute_closure (set (determinant f)) (relevant (set (columns t)) fds)"
proof -
  from assms(1) obtain raw where raw: "bcnf_decompose candidate_keys cols fds = Some raw"
    and tables: "tables = map (\<lambda>(tcols, pk).
                 \<lparr>name = (if length raw > 1
                           then generate_table_name pk (filter (\<lambda>c. c \<notin> set pk) tcols)
                           else ''main''),
                  columns = tcols, primary_key = pk, source_fd = None\<rparr>) raw"
    unfolding decompose_bcnf_def by auto
  from assms(2) tables obtain p where p: "p \<in> set raw" and cols_t: "columns t = fst p"
    by (auto simp: case_prod_beta)
  from bcnf_decompose_tables [OF raw] p have ok: "table_ok fds cols p" by blast
  from assms(3-5) have "f \<in> set (relevant (set (fst p)) fds)"
    by (simp add: relevant_mem cols_t)
  with ok show ?thesis
    unfolding table_ok_def is_superkey_def cols_t by blast
qed

theorem bcnf_tables_have_no_violation_witness:
  "decompose_bcnf [''a'', ''b'', ''c''] [\<lparr>determinant = [''a''], dependent = ''b''\<rparr>, \<lparr>determinant = [''b''], dependent = ''c''\<rparr>] [] =
       Some [\<lparr>name = ''cs'', columns = [''b'', ''c''], primary_key = [''b''], source_fd = None\<rparr>,
             \<lparr>name = ''bs'', columns = [''a'', ''b''], primary_key = [''a''], source_fd = None\<rparr>]
   \<and> {''a'', ''b''} \<subseteq> compute_closure {''a''}
         (relevant {''a'', ''b''} [\<lparr>determinant = [''a''], dependent = ''b''\<rparr>, \<lparr>determinant = [''b''], dependent = ''c''\<rparr>])"
proof -
  let ?fds = "[\<lparr>determinant = [''a''], dependent = ''b''\<rparr>, \<lparr>determinant = [''b''], dependent = ''c''\<rparr>]"
  let ?t = "\<lparr>name = ''bs'', columns = [''a'', ''b''], primary_key = [''a''], source_fd = None\<rparr>"
  have run: "decompose_bcnf [''a'', ''b'', ''c''] ?fds [] =
       Some [\<lparr>name = ''cs'', columns = [''b'', ''c''], primary_key = [''b''], source_fd = None\<rparr>, ?t]"
    by code_simp
  have "set (columns ?t) \<subseteq> compute_closure (set (determinant \<lparr>determinant = [''a''], dependent = ''b''\<rparr>))
          (relevant (set (columns ?t)) ?fds)"
    by (rule bcnf_tables_have_no_violation [OF run]) simp_all
  with run show ?thesis by simp
qed

section \<open>Properties of the 3NF synthesis and of the minimal cover\<close>

lemma all_columns_append: "all_columns (xs @ ys) = all_columns xs \<union> all_columns ys"
  by (simp add: all_columns_def)

lemma all_columns_Cons: "all_columns (t # ts) = set (columns t) \<union> all_columns ts"
  by (simp add: all_columns_def)

lemma extend_main_columns:
  "extend_main ts extra = Some ts' \<Longrightarrow> all_columns ts' = all_columns ts \<union> set extra"
proof (induction ts arbitrary: ts')
  case Nil
  then show ?case by simp
next
  case (Cons t ts)
  show ?case
  proof (cases "source_fd t = None")
    case True
    with Cons.prems have "ts' = t\<lparr>columns := columns t @ extra\<rparr> # ts" by simp
    then show ?thesis by (auto simp: all_columns_Cons)
  next
    case False
    with Cons.prems obtain r where r: "extend_main ts extra = Some r" and ts': "ts' = t # r"
      by auto
    from Cons.IH [OF r] show ?thesis unfolding ts' by (auto simp: all_columns_Cons)
  qed
qed

lemma extend_main_keys:
  "extend_main ts extra = Some ts' \<Longrightarrow>
     \<forall>t \<in> set ts. set (primary_key t) \<subseteq> set (columns t) \<Longrightarrow>
     \<forall>t \<in> set ts'. set (primary_key t) \<subseteq> set (columns t)"
proof (induction ts arbitrary: ts')
  case Nil
  then show ?case by simp
next
  case (Cons t ts)
  show ?case
  proof (cases "source_fd t = None")
    case True
    with Cons.prems(1) have "ts' = t\<lparr>columns := columns t @ extra\<rparr> # ts" by simp
    with Cons.prems(2) show ?thesis by auto
  next
    case False
    with Cons.prems(1) obtain r where r: "extend_main ts extra = Some r" and ts': "ts' = t # r"
      by auto
    from Cons.IH [OF r] Cons.prems(2) show ?thesis unfolding ts' by simp
  qed
qed

lemma group_table_key: "set (primary_key (group_table g)) \<subseteq> set (columns (group_table g))"
  by (cases g) (simp add: group_table_def)

lemma fd_attrs_mem: "f \<in> set fds \<Longrightarrow> set (determinant f) \<subseteq> fd_attrs fds \<and> dependent f \<in> fd_attrs fds"
  by (auto simp: fd_attrs_def)

lemma reduce_det_subset: "set (reduce_det as det dep result) \<subseteq> set det"
  by (induction as) (auto simp: Let_def)

lemma reduce_fd_attrs:
  "set (determinant (reduce_fd result f)) \<subseteq> set (determinant f) \<and>
   dependent (reduce_fd result f) = dependent f"
  using reduce_det_subset [of "determinant f" "determinant f" "dependent f" result]
  by (simp add: reduce_fd_def)

lemma remove_redundant_subset: "set (remove_redundant minimal) \<subseteq> set minimal"
  by (auto simp: remove_redundant_def)

lemma minimal_cover_attrs: "fd_attrs (compute_minimal_cover fds) \<subseteq> fd_attrs fds"
proof
  fix a assume "a \<in> fd_attrs (compute_minimal_cover fds)"
  let ?minimal = "map (\<lambda>f. \<lparr>determinant = sort (determinant f), dependent = dependent f\<rparr>) fds"
  from \<open>a \<in> _\<close> obtain g where g: "g \<in> set (remove_redundant ?minimal)"
    and a: "a \<in> set (determinant (reduce_fd (remove_redundant ?minimal) g)) \<or>
            a = dependent (reduce_fd (remove_redundant ?minimal) g)"
    by (auto simp: fd_attrs_def compute_minimal_cover_def Let_def)
  from a reduce_fd_attrs [of "remove_redundant ?minimal" g]
  have a': "a \<in> set (determinant g) \<or> a = dependent g" by auto
  from g remove_redundant_subset have "g \<in> set ?minimal" by blast
  then obtain f where f: "f \<in> set fds"
    and gf: "g = \<lparr>determinant = sort (determinant f), dependent = dependent f\<rparr>" by auto
  from a' gf have "a \<in> set (determinant f) \<or> a = dependent f" by auto
  with fd_attrs_mem [OF f] show "a \<in> fd_attrs fds" by auto
qed

lemma add_group_attrs: "group_attrs (add_group gs det dep) = group_attrs gs \<union> set det \<union> {dep}"
  by (induction gs det dep rule: add_group.induct) (auto simp: group_attrs_def)

lemma fold_add_group_attrs:
  "group_attrs (fold (\<lambda>f gs. add_group gs (sort (determinant f)) (dependent f)) cover gs)
     = group_attrs gs \<union> fd_attrs cover"
  by (induction cover arbitrary: gs) (auto simp: add_group_attrs fd_attrs_def)

lemma fd_tables_columns:
  "all_columns (map group_table (fd_groups cover)) = fd_attrs cover"
proof -
  have "all_columns (map group_table gs) = group_attrs gs" for gs
    by (induction gs) (auto simp: all_columns_def group_attrs_def group_table_def)
  moreover have "group_attrs [] = {}"
    by (simp add: group_attrs_def)
  ultimately show ?thesis
    unfolding fd_groups_def by (simp only: fold_add_group_attrs) simp
qed

lemma decompose_3nf_keys:
  "\<forall>t \<in> set (decompose_3nf cols fds cks). set (primary_key t) \<subseteq> set (columns t)"
proof -
  let ?fd_tables = "map group_table (fd_groups (compute_minimal_cover fds))"
  let ?mk = "\<lparr>name = ''main_keys'',
              columns = sorted_list_of_set (set (ck_columns (hd cks))),
              primary_key = sorted_list_of_set (set (ck_columns (hd cks))),
              source_fd = None\<rparr>"
  have base: "\<forall>t \<in> set ?fd_tables. set (primary_key t) \<subseteq> set (columns t)"
    using group_table_key by auto
  then have mid: "\<forall>t \<in> set (?fd_tables @ [?mk]). set (primary_key t) \<subseteq> set (columns t)"
    by auto
  show ?thesis
    unfolding decompose_3nf_def Let_def
    using base mid extend_main_keys [of ?fd_tables] extend_main_keys [of "?fd_tables @ [?mk]"]
    by (auto split: option.splits simp del: sorted_list_of_set.sorted_key_list_of_set_insert_remove)
qed

lemma all_columns_Union: "all_columns tables = (\<Union>t \<in> set tables. set (columns t))"
  by (simp add: all_columns_def)

lemma decompose_3nf_columns:
  assumes keys: "cks \<noteq> []"
    and fds: "fd_attrs fds \<subseteq> set cols"
    and key: "set (ck_columns (hd cks)) \<subseteq> set cols"
  shows "all_columns (decompose_3nf cols fds cks) = set cols"
proof -
  let ?fd_tables = "map group_table (fd_groups (compute_minimal_cover fds))"
  let ?covered = "set (concat (map columns ?fd_tables))"
  let ?key = "set (ck_columns (hd cks))"
  let ?mk = "\<lparr>name = ''main_keys'', columns = sorted_list_of_set ?key,
              primary_key = sorted_list_of_set ?key, source_fd = None\<rparr>"
  let ?tables = "if cks \<noteq> [] \<and> \<not> ?key \<subseteq> ?covered then ?fd_tables @ [?mk] else ?fd_tables"
  let ?uncovered = "set cols - ?covered"
  let ?main = "\<lparr>name = ''main'', columns = ck_columns (hd cks) @ sorted_list_of_set ?uncovered,
                primary_key = ck_columns (hd cks), source_fd = None\<rparr>"
  have covered: "?covered = all_columns ?fd_tables"
    by (simp add: all_columns_def)
  have cov_sub: "all_columns ?fd_tables \<subseteq> set cols"
    using fd_tables_columns [of "compute_minimal_cover fds"] minimal_cover_attrs [of fds] fds
    by simp
  have set_key: "set (sorted_list_of_set ?key) = ?key"
    by (rule set_sorted_list_of_set) simp
  have set_unc: "set (sorted_list_of_set ?uncovered) = ?uncovered"
    by (rule set_sorted_list_of_set) simp
  have tables: "all_columns ?tables = all_columns ?fd_tables \<or>
                all_columns ?tables = all_columns ?fd_tables \<union> ?key"
    using set_key by (auto simp: all_columns_append all_columns_Cons all_columns_def)
  have res: "decompose_3nf cols fds cks =
      (if ?uncovered \<noteq> {} \<and> cks \<noteq> []
       then (case extend_main ?tables (sorted_list_of_set ?uncovered) of
               Some tables' \<Rightarrow> tables' | None \<Rightarrow> ?tables @ [?main])
       else ?tables)"
    unfolding decompose_3nf_def Let_def ..
  show ?thesis
  proof (cases "?uncovered = {}")
    case True
    then have "set cols \<subseteq> all_columns ?fd_tables" unfolding covered by blast
    with cov_sub key tables True show ?thesis unfolding res covered by auto
  next
    case False
    show ?thesis
    proof (cases "extend_main ?tables (sorted_list_of_set ?uncovered)")
      case None
      have "all_columns [?main] = ?key \<union> ?uncovered"
        using set_unc by (simp add: all_columns_def)
      then have "all_columns (?tables @ [?main]) = all_columns ?tables \<union> ?key \<union> ?uncovered"
        by (simp only: all_columns_append Un_assoc)
      with None False keys cov_sub key tables show ?thesis
        unfolding res covered by (simp only: if_True simp_thms option.case) blast
    next
      case (Some tables')
      from extend_main_columns [OF Some] set_unc
      have "all_columns tables' = all_columns ?tables \<union> ?uncovered" by simp
      with Some False keys cov_sub key tables show ?thesis
        unfolding res covered by (simp only: if_True simp_thms option.case) blast
    qed
  qed
qed

text \<open>
  C3 (as amended). When the candidate-key list is not empty and the dependencies and
  the first candidate key name only columns of the input, the union of the column sets of
  the tables returned by the 3NF synthesis is the input column set.
\<close>

theorem decompose_3nf_covers_columns:
  assumes "candidate_keys \<noteq> []"
    and "\<forall>f \<in> set fds. set (determinant f) \<subseteq> set cols \<and> dependent f \<in> set cols"
    and "set (ck_columns (hd candidate_keys)) \<subseteq> set cols"
  shows "(\<Union>t \<in> set (decompose_3nf cols fds candidate_keys). set (columns t)) = set cols"
proof -
  from assms(2) have "fd_attrs fds \<subseteq> set cols"
    by (auto simp: fd_attrs_def)
  from decompose_3nf_columns [OF assms(1) this assms(3)] show ?thesis
    by (simp add: all_columns_Union)
qed

theorem decompose_3nf_covers_columns_witness:
  "[\<lparr>ck_columns = [''id''], is_minimal = True\<rparr>] \<noteq> []
   \<and> list_all (\<lambda>f. set (determinant f) \<subseteq> set [''id'', ''x'', ''y'', ''z''] \<and> dependent f \<in> set [''id'', ''x'', ''y'', ''z''])
        [\<lparr>determinant = [''y''], dependent = ''z''\<rparr>]
   \<and> set (ck_columns (hd [\<lparr>ck_columns = [''id''], is_minimal = True\<rparr>])) \<subseteq> set [''id'', ''x'', ''y'', ''z'']
   \<and> decompose_3nf [''id'', ''x'', ''y'', ''z''] [\<lparr>determinant = [''y''], dependent = ''z''\<rparr>]
        [\<lparr>ck_columns = [''id''], is_minimal = True\<rparr>] =
      [\<lparr>name = ''zs'', columns = [''y'', ''z''], primary_key = [''y''], source_fd = Some ([''y''], [''z''])\<rparr>,
       \<lparr>name = ''main_keys'', columns = [''id'', ''id'', ''x''], primary_key = [''id''], source_fd = None\<rparr>]
   \<and> (\<Union>t \<in> set (decompose_3nf [''id'', ''x'', ''y'', ''z''] [\<lparr>determinant = [''y''], dependent = ''z''\<rparr>]
        [\<lparr>ck_columns = [''id''], is_minimal = True\<rparr>]). set (columns t)) = set [''id'', ''x'', ''y'', ''z'']"
proof -
  let ?cks = "[\<lparr>ck_columns = [''id''], is_minimal = True\<rparr>]"
  let ?fds = "[\<lparr>determinant = [''y''], dependent = ''z''\<rparr>]"
  let ?cols = "[''id'', ''x'', ''y'', ''z'']"
  have h1: "?cks \<noteq> []" by simp
  have h2: "\<forall>f \<in> set ?fds. set (determinant f) \<subseteq> set ?cols \<and> dependent f \<in> set ?cols" by simp
  have h3: "set (ck_columns (hd ?cks)) \<subseteq> set ?cols" by simp
  have run: "decompose_3nf ?cols ?fds ?cks =
      [\<lparr>name = ''zs'', columns = [''y'', ''z''], primary_key = [''y''], source_fd = Some ([''y''], [''z''])\<rparr>,
       \<lparr>name = ''main_keys'', columns = [''id'', ''id'', ''x''], primary_key = [''id''], source_fd = None\<rparr>]"
    by code_simp
  have h2': "list_all (\<lambda>f. set (determinant f) \<subseteq> set ?cols \<and> dependent f \<in> set ?cols) ?fds"
    by simp
  note concl = decompose_3nf_covers_columns [OF h1 h2 h3]
  from h1 h2' h3 run concl show ?thesis by (intro conjI)
qed

theorem decompose_3nf_drops_columns_without_key:
  "decompose_3nf [''a'', ''b''] [] [] = []
   \<and> (\<Union>t \<in> set (decompose_3nf [''a'', ''b''] [] []). set (columns t)) \<noteq> set [''a'', ''b'']"
proof -
  have run: "decompose_3nf [''a'', ''b''] [] [] = []" by code_simp
  show ?thesis unfolding run by simp
qed

text \<open>
  C10. Every table of the 3NF synthesis and every table of the BCNF decomposition has
  its primary key among its own columns, and \<open>find_key\<close> returns a subset of the column
  list it is given.
\<close>

theorem primary_key_within_columns:
  "(\<forall>t \<in> set (decompose_3nf cols fds candidate_keys). set (primary_key t) \<subseteq> set (columns t)) \<and>
   (\<forall>tables. decompose_bcnf cols fds candidate_keys = Some tables \<longrightarrow>
      (\<forall>t \<in> set tables. set (primary_key t) \<subseteq> set (columns t))) \<and>
   set (find_key cols fds candidate_keys) \<subseteq> set cols"
proof (intro conjI allI impI)
  show "\<forall>t \<in> set (decompose_3nf cols fds candidate_keys). set (primary_key t) \<subseteq> set (columns t)"
    by (rule decompose_3nf_keys)
next
  fix tables
  assume run: "decompose_bcnf cols fds candidate_keys = Some tables"
  then obtain raw where raw: "bcnf_decompose candidate_keys cols fds = Some raw"
    and tables: "tables = map (\<lambda>(tcols, pk).
                 \<lparr>name = (if length raw > 1
                           then generate_table_name pk (filter (\<lambda>c. c \<notin> set pk) tcols)
                           else ''main''),
                  columns = tcols, primary_key = pk, source_fd = None\<rparr>) raw"
    unfolding decompose_bcnf_def by auto
  from bcnf_decompose_tables [OF raw] have "\<forall>p \<in> set raw. set (snd p) \<subseteq> set (fst p)"
    unfolding table_ok_def by blast
  then show "\<forall>t \<in> set tables. set (primary_key t) \<subseteq> set (columns t)"
    unfolding tables by (auto simp: case_prod_beta)
next
  show "set (find_key cols fds candidate_keys) \<subseteq> set cols"
    by (rule find_key_subset)
qed

theorem primary_key_within_columns_witness:
  "decompose_3nf [''a'', ''b'', ''c''] [\<lparr>determinant = [''b''], dependent = ''c''\<rparr>] [\<lparr>ck_columns = [''a''], is_minimal = True\<rparr>] =
     [\<lparr>name = ''cs'', columns = [''b'', ''c''], primary_key = [''b''], source_fd = Some ([''b''], [''c''])\<rparr>,
      \<lparr>name = ''main_keys'', columns = [''a'', ''a''], primary_key = [''a''], source_fd = None\<rparr>]
   \<and> list_all (\<lambda>t. set (primary_key t) \<subseteq> set (columns t))
        (decompose_3nf [''a'', ''b'', ''c''] [\<lparr>determinant = [''b''], dependent = ''c''\<rparr>] [\<lparr>ck_columns = [''a''], is_minimal = True\<rparr>])
   \<and> decompose_bcnf [''a'', ''b'', ''c''] [\<lparr>determinant = [''b''], dependent = ''c''\<rparr>] [\<lparr>ck_columns = [''a''], is_minimal = True\<rparr>] =
       Some [\<lparr>name = ''cs'', columns = [''b'', ''c''], primary_key = [''b''], source_fd = None\<rparr>,
             \<lparr>name = ''bs'', columns = [''a'', ''b''], primary_key = [''a''], source_fd = None\<rparr>]
   \<and> list_all (\<lambda>t. set (primary_key t) \<subseteq> set (columns t))
        [\<lparr>name = ''cs'', columns = [''b'', ''c''], primary_key = [''b''], source_fd = None\<rparr>,
         \<lparr>name = ''bs'', columns = [''a'', ''b''], primary_key = [''a''], source_fd = None\<rparr>]
   \<and> set (find_key [''a'', ''b'', ''c''] [\<lparr>determinant = [''b''], dependent = ''c''\<rparr>] [\<lparr>ck_columns = [''a''], is_minimal = True\<rparr>])
        \<subseteq> set [''a'', ''b'', ''c'']"
proof -
  let ?cks = "[\<lparr>ck_columns = [''a''], is_minimal = True\<rparr>]"
  let ?fds = "[\<lparr>determinant = [''b''], dependent = ''c''\<rparr>]"
  let ?cols = "[''a'', ''b'', ''c'']"
  have r3: "decompose_3nf ?cols ?fds ?cks =
     [\<lparr>name = ''cs'', columns = [''b'', ''c''], primary_key = [''b''], source_fd = Some ([''b''], [''c''])\<rparr>,
      \<lparr>name = ''main_keys'', columns = [''a'', ''a''], primary_key = [''a''], source_fd = None\<rparr>]"
    by code_simp
  have rb: "decompose_bcnf ?cols ?fds ?cks =
       Some [\<lparr>name = ''cs'', columns = [''b'', ''c''], primary_key = [''b''], source_fd = None\<rparr>,
             \<lparr>name = ''bs'', columns = [''a'', ''b''], primary_key = [''a''], source_fd = None\<rparr>]"
    by code_simp
  note t = primary_key_within_columns [of ?cols ?fds ?cks]
  from t have a: "list_all (\<lambda>t. set (primary_key t) \<subseteq> set (columns t)) (decompose_3nf ?cols ?fds ?cks)"
    unfolding list_all_iff by blast
  from t rb have b: "list_all (\<lambda>t. set (primary_key t) \<subseteq> set (columns t))
        [\<lparr>name = ''cs'', columns = [''b'', ''c''], primary_key = [''b''], source_fd = None\<rparr>,
         \<lparr>name = ''bs'', columns = [''a'', ''b''], primary_key = [''a''], source_fd = None\<rparr>]"
    unfolding list_all_iff by blast
  from t have c: "set (find_key ?cols ?fds ?cks) \<subseteq> set ?cols" by blast
  from r3 a rb b c show ?thesis by (intro conjI)
qed

lemma closed_under_subset: "closed_under fds c \<Longrightarrow> set gs \<subseteq> set fds \<Longrightarrow> closed_under gs c"
  unfolding closed_under_def by blast

lemma reduce_det_cases:
  "reduce_det as det dep res = det \<or>
   is_derivable \<lparr>determinant = reduce_det as det dep res, dependent = dep\<rparr> res"
  by (induction as) (auto simp: Let_def)

text \<open>
  Every dependency of the returned cover follows from the input list: closures under
  the cover never exceed closures under the input.
\<close>

lemma minimal_cover_sound:
  "compute_closure X (compute_minimal_cover fds) \<subseteq> compute_closure X fds"
proof -
  let ?minimal = "map (\<lambda>f. \<lparr>determinant = sort (determinant f), dependent = dependent f\<rparr>) fds"
  let ?res = "remove_redundant ?minimal"
  let ?C = "closure_loop fds X"
  have C_fds: "closed_under fds ?C" by (rule closure_loop_closed)
  have C_min: "closed_under ?minimal ?C"
    using C_fds unfolding closed_under_def by auto
  have C_res: "closed_under ?res ?C"
    using C_min remove_redundant_subset by (rule closed_under_subset)
  have "closed_under (map (reduce_fd ?res) ?res) ?C"
    unfolding closed_under_def
  proof (intro ballI impI)
    fix g assume "g \<in> set (map (reduce_fd ?res) ?res)"
      and sub: "set (determinant g) \<subseteq> ?C"
    then obtain g0 where g0: "g0 \<in> set ?res" and g: "g = reduce_fd ?res g0" by auto
    have dep: "dependent g = dependent g0" by (simp add: g reduce_fd_def)
    show "dependent g \<in> ?C"
    proof (cases "determinant g = determinant g0")
      case True
      with sub g0 C_res dep show ?thesis unfolding closed_under_def by auto
    next
      case False
      then have "determinant g = reduce_det (determinant g0) (determinant g0) (dependent g0) ?res"
        and "reduce_det (determinant g0) (determinant g0) (dependent g0) ?res \<noteq> determinant g0"
        by (auto simp: g reduce_fd_def split: if_splits)
      with reduce_det_cases [of "determinant g0" "determinant g0" "dependent g0" ?res]
      have "is_derivable \<lparr>determinant = determinant g, dependent = dependent g0\<rparr> ?res"
        by auto
      then have "dependent g0 \<in> closure_loop ?res (set (determinant g))"
        by (simp add: is_derivable_def)
      moreover have "closure_loop ?res (set (determinant g)) \<subseteq> ?C"
        using C_res sub by (rule closure_loop_least)
      ultimately show ?thesis using dep by auto
    qed
  qed
  moreover have "X \<subseteq> ?C" by (rule closure_loop_extends)
  ultimately have "closure_loop (map (reduce_fd ?res) ?res) X \<subseteq> ?C"
    by (rule closure_loop_least)
  then show ?thesis
    by (simp add: compute_closure_def compute_minimal_cover_def Let_def)
qed

text \<open>
  C1. The dependencies \<open>a \<rightarrow> b\<close>, \<open>b \<rightarrow> a\<close>, \<open>a \<rightarrow> c\<close>, \<open>b \<rightarrow> c\<close> satisfy the input format
  (single dependents, none inside its own determinant). Each of \<open>a \<rightarrow> c\<close> and \<open>b \<rightarrow> c\<close>
  is derivable from the other three, step 2 tests each against the unreduced list, and
  both are dropped: the closure of \<open>{a}\<close> under the returned list has lost \<open>c\<close>.
\<close>

theorem minimal_cover_loses_closure:
  "compute_minimal_cover
     [\<lparr>determinant = [''a''], dependent = ''b''\<rparr>, \<lparr>determinant = [''b''], dependent = ''a''\<rparr>,
      \<lparr>determinant = [''a''], dependent = ''c''\<rparr>, \<lparr>determinant = [''b''], dependent = ''c''\<rparr>]
   = [\<lparr>determinant = [''a''], dependent = ''b''\<rparr>, \<lparr>determinant = [''b''], dependent = ''a''\<rparr>]
   \<and> compute_closure {''a''}
       (compute_minimal_cover
         [\<lparr>determinant = [''a''], dependent = ''b''\<rparr>, \<lparr>determinant = [''b''], dependent = ''a''\<rparr>,
          \<lparr>determinant = [''a''], dependent = ''c''\<rparr>, \<lparr>determinant = [''b''], dependent = ''c''\<rparr>])
     = {''a'', ''b''}
   \<and> compute_closure {''a''}
         [\<lparr>determinant = [''a''], dependent = ''b''\<rparr>, \<lparr>determinant = [''b''], dependent = ''a''\<rparr>,
          \<lparr>determinant = [''a''], dependent = ''c''\<rparr>, \<lparr>determinant = [''b''], dependent = ''c''\<rparr>]
     = {''a'', ''b'', ''c''}"
  by code_simp


section \<open>Properties of the float operations\<close>












section \<open>Properties of dependency discovery and of the key finder\<close>

text \<open>
  C2. The frame below (the CSV rows \<^verbatim>\<open>1,x,1\<close>, \<^verbatim>\<open>1,,2\<close>, \<^verbatim>\<open>2,x,1\<close> under the header
  \<^verbatim>\<open>a,b,c\<close>) yields the confirmed dependencies \<open>a \<rightarrow> b\<close>, \<open>b \<rightarrow> c\<close>, \<open>c \<rightarrow> b\<close>. Then
  \<^verbatim>\<open>must_be_in_key\<close> is \<open>{a}\<close>, its closure under the confirmed dependencies is the full
  attribute set, and \<open>find_candidate_keys\<close> records no key: it only collects the dependents
  reached in one step.
\<close>

theorem candidate_key_missed:
  "detect_fds
     \<lparr>df_columns = [''a'', ''b'', ''c''],
      df_rows = [[Num 1, Str ''x'', Num 1], [Num 1, NaN, Num 2], [Num 2, Str ''x'', Num 1]]\<rparr> (4 / 5)
   = Inr [found [''a''] ''b'' \<lparr>holds = True, confidence = 1, violations = 0, total_groups = Some 2\<rparr>,
          found [''b''] ''c'' \<lparr>holds = True, confidence = 1, violations = 0, total_groups = Some 1\<rparr>,
          found [''c''] ''b'' \<lparr>holds = True, confidence = 1, violations = 0, total_groups = Some 1\<rparr>]
   \<and> find_candidate_keys
       \<lparr>df_columns = [''a'', ''b'', ''c''],
        df_rows = [[Num 1, Str ''x'', Num 1], [Num 1, NaN, Num 2], [Num 2, Str ''x'', Num 1]]\<rparr>
       [found [''a''] ''b'' \<lparr>holds = True, confidence = 1, violations = 0, total_groups = Some 2\<rparr>,
        found [''b''] ''c'' \<lparr>holds = True, confidence = 1, violations = 0, total_groups = Some 1\<rparr>,
        found [''c''] ''b'' \<lparr>holds = True, confidence = 1, violations = 0, total_groups = Some 1\<rparr>]
     = []
   \<and> compute_closure ({''a'', ''b'', ''c''} - {''b'', ''c''})
       [\<lparr>determinant = [''a''], dependent = ''b''\<rparr>,
        \<lparr>determinant = [''b''], dependent = ''c''\<rparr>,
        \<lparr>determinant = [''c''], dependent = ''b''\<rparr>]
     = {''a'', ''b'', ''c''}"
  by code_simp













text \<open>
  At a decimal tie the float computation differs from exact arithmetic: with 3619
  violating partitions out of 20000 the exact value \<open>0.81905\<close> would round to \<open>0.8190\<close>,
  while the product with \<open>10000.0\<close> lies above \<open>8190.5\<close> and the result is the float
  \<open>0.8191\<close>.
\<close>

lemma float_confidence_decimal_tie: "float_confidence 3619 20000 = fl (8191 / 10000)"
proof -
  have "float_confidence 3619 20000 = round4 (fsub 1 (fdiv (fl 3619) (fl 20000)))"
    by (simp add: float_confidence_def)
  also have "\<dots> = fl (8191 / 10000)"
    by code_simp
  finally show ?thesis .
qed




























section \<open>Properties of the replay\<close>

text \<open>
  C9. A frame in which no dependency holds: discovery finds nothing, the key finder
  records all columns as the key, and the 3NF synthesis returns the single table
  \<open>main_keys\<close> whose column list names every column twice (the key columns, then the
  uncovered columns again). \<open>normalize\<close> writes that table; the replay on the same frame
  raises in \<^verbatim>\<open>sort_values\<close> and writes nothing.
\<close>

theorem replay_fails_on_synthesized_config:
  "detect_fds
     \<lparr>df_columns = [''a'', ''b''],
      df_rows = [[Num 1, Num 1], [Num 1, Num 2], [Num 2, Num 1], [Num 2, Num 2]]\<rparr> (4 / 5)
   = Inr []
   \<and> find_candidate_keys
       \<lparr>df_columns = [''a'', ''b''],
        df_rows = [[Num 1, Num 1], [Num 1, Num 2], [Num 2, Num 1], [Num 2, Num 2]]\<rparr> []
     = [\<lparr>ck_columns = [''a'', ''b''], is_minimal = True\<rparr>]
   \<and> normalize
       \<lparr>df_columns = [''a'', ''b''],
        df_rows = [[Num 1, Num 1], [Num 1, Num 2], [Num 2, Num 1], [Num 2, Num 2]]\<rparr>
       \<lparr>nc_functional_dependencies = [],
        nc_candidate_keys = [\<lparr>ck_columns = [''a'', ''b''], is_minimal = True\<rparr>]\<rparr>
       ''3NF''
     = Normalized
         [(''main_keys'',
           \<lparr>df_columns = [''a'', ''b'', ''a'', ''b''],
            df_rows = [[Num 1, Num 1, Num 1, Num 1], [Num 1, Num 2, Num 1, Num 2],
                       [Num 2, Num 1, Num 2, Num 1], [Num 2, Num 2, Num 2, Num 2]]\<rparr>)]
         \<lparr>cfg_version = ''1.0'', cfg_original_columns = [''a'', ''b''],
          cfg_tables = [\<lparr>t_name = ''main_keys'', t_columns = [''a'', ''b'', ''a'', ''b''],
                         t_primary_key = [''a'', ''b'']\<rparr>],
          cfg_foreign_keys = Some []\<rparr>
   \<and> transform
       \<lparr>df_columns = [''a'', ''b''],
        df_rows = [[Num 1, Num 1], [Num 1, Num 2], [Num 2, Num 1], [Num 2, Num 2]]\<rparr>
       \<lparr>cfg_version = ''1.0'', cfg_original_columns = [''a'', ''b''],
        cfg_tables = [\<lparr>t_name = ''main_keys'', t_columns = [''a'', ''b'', ''a'', ''b''],
                       t_primary_key = [''a'', ''b'']\<rparr>],
        cfg_foreign_keys = Some []\<rparr>
       False
     = Transform_raised ValueError \<lparr>written = [], printed = []\<rparr>"
  by code_simp

text \<open>
  C8. The frame with header \<open>a, b, c\<close> yields the dependency \<open>a \<rightarrow> b\<close> and the key
  \<open>{a, c}\<close>; \<open>normalize\<close> writes the tables \<open>bs\<close> and \<open>main_keys\<close>, the latter with the
  columns \<open>a, c, c\<close>. Replayed without strict mode on data that lacks column \<open>b\<close>,
  table \<open>bs\<close> is skipped with a message, and \<open>main_keys\<close>, whose columns are all present,
  is not written: \<^verbatim>\<open>sort_values\<close> raises on the repeated key label and the run fails.
\<close>

theorem replay_fails_on_present_table:
  "detect_fds
     \<lparr>df_columns = [''a'', ''b'', ''c''],
      df_rows = [[Num 1, Str ''p'', Num 1], [Num 1, Str ''p'', Num 2], [Num 2, Str ''p'', Num 1],
                 [Num 2, Str ''p'', Num 2], [Num 3, Str ''q'', Num 1], [Num 3, Str ''q'', Num 2]]\<rparr> (4 / 5)
   = Inr [found [''a''] ''b'' \<lparr>holds = True, confidence = 1, violations = 0, total_groups = Some 3\<rparr>]
   \<and> find_candidate_keys
       \<lparr>df_columns = [''a'', ''b'', ''c''],
        df_rows = [[Num 1, Str ''p'', Num 1], [Num 1, Str ''p'', Num 2], [Num 2, Str ''p'', Num 1],
                   [Num 2, Str ''p'', Num 2], [Num 3, Str ''q'', Num 1], [Num 3, Str ''q'', Num 2]]\<rparr>
       [found [''a''] ''b'' \<lparr>holds = True, confidence = 1, violations = 0, total_groups = Some 3\<rparr>]
     = [\<lparr>ck_columns = [''a'', ''c''], is_minimal = True\<rparr>]
   \<and> normalize
       \<lparr>df_columns = [''a'', ''b'', ''c''],
        df_rows = [[Num 1, Str ''p'', Num 1], [Num 1, Str ''p'', Num 2], [Num 2, Str ''p'', Num 1],
                   [Num 2, Str ''p'', Num 2], [Num 3, Str ''q'', Num 1], [Num 3, Str ''q'', Num 2]]\<rparr>
       \<lparr>nc_functional_dependencies =
          [found [''a''] ''b'' \<lparr>holds = True, confidence = 1, violations = 0, total_groups = Some 3\<rparr>],
        nc_candidate_keys = [\<lparr>ck_columns = [''a'', ''c''], is_minimal = True\<rparr>]\<rparr>
       ''3NF''
     = Normalized
         [(''bs'', \<lparr>df_columns = [''a'', ''b''],
                   df_rows = [[Num 1, Str ''p''], [Num 2, Str ''p''], [Num 3, Str ''q'']]\<rparr>),
          (''main_keys'',
           \<lparr>df_columns = [''a'', ''c'', ''c''],
            df_rows = [[Num 1, Num 1, Num 1], [Num 1, Num 2, Num 2], [Num 2, Num 1, Num 1],
                       [Num 2, Num 2, Num 2], [Num 3, Num 1, Num 1], [Num 3, Num 2, Num 2]]\<rparr>)]
         \<lparr>cfg_version = ''1.0'', cfg_original_columns = [''a'', ''b'', ''c''],
          cfg_tables = [\<lparr>t_name = ''bs'', t_columns = [''a'', ''b''], t_primary_key = [''a'']\<rparr>,
                        \<lparr>t_name = ''main_keys'', t_columns = [''a'', ''c'', ''c''],
                         t_primary_key = [''a'', ''c'']\<rparr>],
          cfg_foreign_keys = Some []\<rparr>
   \<and> transform
       \<lparr>df_columns = [''a'', ''c''], df_rows = [[Num 1, Num 1], [Num 1, Num 2], [Num 2, Num 1]]\<rparr>
       \<lparr>cfg_version = ''1.0'', cfg_original_columns = [''a'', ''b'', ''c''],
        cfg_tables = [\<lparr>t_name = ''bs'', t_columns = [''a'', ''b''], t_primary_key = [''a'']\<rparr>,
                      \<lparr>t_name = ''main_keys'', t_columns = [''a'', ''c'', ''c''],
                       t_primary_key = [''a'', ''c'']\<rparr>],
        cfg_foreign_keys = Some []\<rparr>
       False
     = Transform_raised ValueError
         \<lparr>written = [],
          printed = [Warning (''Missing columns: '' @ set_repr {''b''}), Skipping ''bs'' {''b''}]\<rparr>"
  by code_simp

lemma contains_prefix: "contains sub (sub @ rest)"
proof (cases "sub @ rest")
  case Nil
  then show ?thesis by simp
next
  case (Cons a l)
  have "take (length sub) (sub @ rest) = sub" by simp
  then show ?thesis unfolding Cons by simp
qed

lemma missing_reported:
  assumes "\<not> set (cfg_original_columns config) \<subseteq> set (df_columns df)"
  shows "validate_input df config \<noteq> [] \<and> list_ex (contains ''Missing'') (validate_input df config)"
proof -
  have "contains ''Missing'' (''Missing'' @ '' columns: '' @ s)" for s
    by (rule contains_prefix)
  then have "contains ''Missing'' (''Missing columns: '' @ s)" for s
    by simp
  with assms show ?thesis
    unfolding validate_input_def Let_def by auto
qed

text \<open>
  In strict mode, data that lacks one of the original columns of the configuration ends
  the replay before the table loop: nothing is written.
\<close>

theorem strict_replay_aborts:
  assumes "\<not> set (cfg_original_columns config) \<subseteq> set (df_columns df)"
  shows "\<exists>st. transform df config True = Exited st \<and> written st = []"
  using missing_reported [OF assms] unfolding transform_def Let_def by simp

theorem strict_replay_aborts_witness:
  "\<not> set (cfg_original_columns
        \<lparr>cfg_version = ''1.0'', cfg_original_columns = [''a'', ''b''],
         cfg_tables = [\<lparr>t_name = ''bs'', t_columns = [''a'', ''b''], t_primary_key = [''a'']\<rparr>],
         cfg_foreign_keys = Some []\<rparr>)
      \<subseteq> set (df_columns \<lparr>df_columns = [''a''], df_rows = [[Num 1]]\<rparr>)
   \<and> (\<exists>st. transform \<lparr>df_columns = [''a''], df_rows = [[Num 1]]\<rparr>
        \<lparr>cfg_version = ''1.0'', cfg_original_columns = [''a'', ''b''],
         cfg_tables = [\<lparr>t_name = ''bs'', t_columns = [''a'', ''b''], t_primary_key = [''a'']\<rparr>],
         cfg_foreign_keys = Some []\<rparr> True = Exited st \<and> written st = [])"
proof -
  let ?cfg = "\<lparr>cfg_version = ''1.0'', cfg_original_columns = [''a'', ''b''],
         cfg_tables = [\<lparr>t_name = ''bs'', t_columns = [''a'', ''b''], t_primary_key = [''a'']\<rparr>],
         cfg_foreign_keys = Some []\<rparr>"
  let ?df = "\<lparr>df_columns = [''a''], df_rows = [[Num 1]]\<rparr>"
  have h: "\<not> set (cfg_original_columns ?cfg) \<subseteq> set (df_columns ?df)" by simp
  from h strict_replay_aborts [OF h] show ?thesis by (intro conjI)
qed

lemma available_length:
  "length (filter (\<lambda>c. c \<in> set cs) xs) = length xs \<longleftrightarrow> set xs \<subseteq> set cs"
proof (induction xs)
  case Nil
  show ?case by simp
next
  case (Cons a xs)
  have le: "length (filter (\<lambda>c. c \<in> set cs) xs) \<le> length xs"
    by (rule length_filter_le)
  show ?case
  proof (cases "a \<in> set cs")
    case True
    with Cons show ?thesis by simp
  next
    case False
    from le have "length (filter (\<lambda>c. c \<in> set cs) xs) \<noteq> Suc (length xs)" by linarith
    with False show ?thesis by simp
  qed
qed

lemma sort_values_rows:
  assumes "sort_values df by = Inr res"
  shows "df_columns res = df_columns df \<and> mset (df_rows res) = mset (df_rows df)"
  using assms unfolding sort_values_def by (auto split: option.splits)

lemma sort_values_ok:
  "check_labels (df_columns df) by = None \<Longrightarrow> \<exists>res. sort_values df by = Inr res"
  by (simp add: sort_values_def)

lemma select_ok:
  "set cs \<subseteq> set (df_columns df) \<Longrightarrow> \<exists>p. select df cs = Inr p \<and> df_columns p = cs"
  by (simp add: select_def)

text \<open>
  The replay loop on table definitions that are all sortable: it returns, it writes
  exactly the tables whose columns are all present, in order, and it prints a skip
  message for each of the others.
\<close>

lemma transform_tables_sortable:
  assumes "list_all (\<lambda>tc. present df tc \<longrightarrow> sortable tc) tcs"
  shows "\<exists>st'. transform_tables df tcs st = Inr st' \<and>
           map fst (written st') = map fst (written st) @ map t_name (filter (present df) tcs) \<and>
           set (printed st) \<subseteq> set (printed st') \<and>
           list_all (\<lambda>tc. present df tc \<or>
              Skipping (t_name tc) (set (t_columns tc) - set (df_columns df)) \<in> set (printed st')) tcs"
  using assms
proof (induction tcs arbitrary: st)
  case Nil
  show ?case by simp
next
  case (Cons tc rest)
  from Cons.prems have rest: "list_all (\<lambda>tc. present df tc \<longrightarrow> sortable tc) rest"
    and here: "present df tc \<longrightarrow> sortable tc" by simp_all
  let ?avail = "filter (\<lambda>c. c \<in> set (df_columns df)) (t_columns tc)"
  have avail: "length ?avail = length (t_columns tc) \<longleftrightarrow> present df tc"
    unfolding present_def by (rule available_length)
  show ?case
  proof (cases "present df tc")
    case False
    let ?st = "st\<lparr>printed := printed st @ [Skipping (t_name tc) (set (t_columns tc) - set ?avail)]\<rparr>"
    have step: "transform_tables df (tc # rest) st = transform_tables df rest ?st"
      using False avail by (simp add: Let_def)
    have miss: "set (t_columns tc) - set ?avail = set (t_columns tc) - set (df_columns df)"
      by auto
    from Cons.IH [OF rest, of ?st] obtain st' where
      run: "transform_tables df rest ?st = Inr st'"
      and names: "map fst (written st') = map fst (written ?st) @ map t_name (filter (present df) rest)"
      and keep: "set (printed ?st) \<subseteq> set (printed st')"
      and skips: "list_all (\<lambda>tc. present df tc \<or>
              Skipping (t_name tc) (set (t_columns tc) - set (df_columns df)) \<in> set (printed st')) rest"
      by blast
    from keep miss have "Skipping (t_name tc) (set (t_columns tc) - set (df_columns df)) \<in> set (printed st')"
      by auto
    with run names keep skips False show ?thesis
      unfolding step by auto
  next
    case True
    with here have "sortable tc" by simp
    from True obtain p where p: "select df (t_columns tc) = Inr p" and pc: "df_columns p = t_columns tc"
      using select_ok unfolding present_def by blast
    have "check_labels (df_columns (drop_duplicates p)) (t_primary_key tc) = None"
      using \<open>sortable tc\<close> pc by (simp add: sortable_def drop_duplicates_def)
    from sort_values_ok [OF this] obtain table_df where
      s: "sort_values (drop_duplicates p) (t_primary_key tc) = Inr table_df" ..
    let ?st = "st\<lparr>written := written st @ [(t_name tc, table_df)],
                   printed := printed st @ [Created (t_name tc) (length (df_rows table_df))]\<rparr>"
    have step: "transform_tables df (tc # rest) st = transform_tables df rest ?st"
      using True avail p s by (simp add: Let_def)
    from Cons.IH [OF rest, of ?st] obtain st' where
      run: "transform_tables df rest ?st = Inr st'"
      and names: "map fst (written st') = map fst (written ?st) @ map t_name (filter (present df) rest)"
      and keep: "set (printed ?st) \<subseteq> set (printed st')"
      and skips: "list_all (\<lambda>tc. present df tc \<or>
              Skipping (t_name tc) (set (t_columns tc) - set (df_columns df)) \<in> set (printed st')) rest"
      by blast
    from run names keep skips True show ?thesis
      unfolding step by auto
  qed
qed

text \<open>
  For a table whose columns are all in the frame and whose key labels each name exactly
  one of its columns, the file the replay writes has the columns of the file \<open>normalize\<close>
  writes and the same rows up to order.
\<close>

theorem replay_rows_permutation:
  assumes "set (columns t) \<subseteq> set (df_columns df)"
    and "check_labels (columns t) (primary_key t) = None"
  shows "\<exists>w r.
           write_tables df [t] [] = Inr [(name t, w)] \<and>
           transform_tables df
             [\<lparr>t_name = name t, t_columns = columns t, t_primary_key = primary_key t\<rparr>]
             \<lparr>written = [], printed = []\<rparr>
           = Inr \<lparr>written = [(name t, r)], printed = [Created (name t) (length (df_rows r))]\<rparr> \<and>
           df_columns r = df_columns w \<and> mset (df_rows r) = mset (df_rows w)"
proof -
  from select_ok [OF assms(1)] obtain p where
    p: "select df (columns t) = Inr p" and pc: "df_columns p = columns t" by blast
  have "check_labels (df_columns (drop_duplicates p)) (primary_key t) = None"
    using assms(2) pc by (simp add: drop_duplicates_def)
  from sort_values_ok [OF this] obtain r where
    r: "sort_values (drop_duplicates p) (primary_key t) = Inr r" ..
  have avail: "length (filter (\<lambda>c. c \<in> set (df_columns df)) (columns t)) = length (columns t)"
    using assms(1) by (simp add: available_length)
  have w: "write_tables df [t] [] = Inr [(name t, drop_duplicates p)]"
    by (simp add: p)
  have tr: "transform_tables df
             [\<lparr>t_name = name t, t_columns = columns t, t_primary_key = primary_key t\<rparr>]
             \<lparr>written = [], printed = []\<rparr>
           = Inr \<lparr>written = [(name t, r)], printed = [Created (name t) (length (df_rows r))]\<rparr>"
    using avail by (simp add: Let_def p r)
  from w tr sort_values_rows [OF r] show ?thesis by blast
qed

theorem replay_rows_permutation_witness:
  "set (columns \<lparr>name = ''bs'', columns = [''a'', ''b''], primary_key = [''a''], source_fd = None\<rparr>)
     \<subseteq> set (df_columns \<lparr>df_columns = [''a'', ''b''], df_rows = [[Num 2, Str ''q''], [Num 1, Str ''p''], [Num 2, Str ''q'']]\<rparr>)
   \<and> check_labels [''a'', ''b''] [''a''] = None
   \<and> (\<exists>w r.
         write_tables \<lparr>df_columns = [''a'', ''b''], df_rows = [[Num 2, Str ''q''], [Num 1, Str ''p''], [Num 2, Str ''q'']]\<rparr>
           [\<lparr>name = ''bs'', columns = [''a'', ''b''], primary_key = [''a''], source_fd = None\<rparr>] []
           = Inr [(''bs'', w)] \<and>
         transform_tables \<lparr>df_columns = [''a'', ''b''], df_rows = [[Num 2, Str ''q''], [Num 1, Str ''p''], [Num 2, Str ''q'']]\<rparr>
           [\<lparr>t_name = ''bs'', t_columns = [''a'', ''b''], t_primary_key = [''a'']\<rparr>]
           \<lparr>written = [], printed = []\<rparr>
           = Inr \<lparr>written = [(''bs'', r)], printed = [Created ''bs'' (length (df_rows r))]\<rparr> \<and>
         df_columns r = df_columns w \<and> mset (df_rows r) = mset (df_rows w))"
proof -
  let ?t = "\<lparr>name = ''bs'', columns = [''a'', ''b''], primary_key = [''a''], source_fd = None\<rparr>"
  let ?df = "\<lparr>df_columns = [''a'', ''b''], df_rows = [[Num 2, Str ''q''], [Num 1, Str ''p''], [Num 2, Str ''q'']]\<rparr>"
  have h1: "set (columns ?t) \<subseteq> set (df_columns ?df)" by simp
  have h2: "check_labels (columns ?t) (primary_key ?t) = None" by simp
  have h2': "check_labels [''a'', ''b''] [''a''] = None" by simp
  from replay_rows_permutation [OF h1 h2] have c: "\<exists>w r.
         write_tables ?df [?t] [] = Inr [(''bs'', w)] \<and>
         transform_tables ?df
           [\<lparr>t_name = ''bs'', t_columns = [''a'', ''b''], t_primary_key = [''a'']\<rparr>]
           \<lparr>written = [], printed = []\<rparr>
           = Inr \<lparr>written = [(''bs'', r)], printed = [Created ''bs'' (length (df_rows r))]\<rparr> \<and>
         df_columns r = df_columns w \<and> mset (df_rows r) = mset (df_rows w)"
    by simp
  from h1 h2' c show ?thesis by (intro conjI)
qed

text \<open>
  The replay loop on table definitions whose key labels each name exactly one of their
  columns (whenever all their columns are present): the loop returns, writes exactly the
  tables whose columns are all present, in order, and prints a skip message for every
  other table.
\<close>

theorem replay_loop_writes_present_tables:
  assumes "list_all (\<lambda>tc. present df tc \<longrightarrow> sortable tc) tcs"
  shows "\<exists>st'. transform_tables df tcs \<lparr>written = [], printed = ws\<rparr> = Inr st' \<and>
           map fst (written st') = map t_name (filter (present df) tcs) \<and>
           list_all (\<lambda>tc. present df tc \<or>
              Skipping (t_name tc) (set (t_columns tc) - set (df_columns df)) \<in> set (printed st')) tcs"
  using transform_tables_sortable [OF assms, of "\<lparr>written = [], printed = ws\<rparr>"] by auto

theorem replay_loop_writes_present_tables_witness:
  "list_all (\<lambda>tc. \<not> present \<lparr>df_columns = [''a'', ''c''], df_rows = [[Num 2, Num 1], [Num 1, Num 2]]\<rparr> tc \<or> sortable tc)
     [\<lparr>t_name = ''bs'', t_columns = [''a'', ''b''], t_primary_key = [''a'']\<rparr>,
      \<lparr>t_name = ''cs'', t_columns = [''a'', ''c''], t_primary_key = [''a'']\<rparr>]
   \<and> transform_tables \<lparr>df_columns = [''a'', ''c''], df_rows = [[Num 2, Num 1], [Num 1, Num 2]]\<rparr>
       [\<lparr>t_name = ''bs'', t_columns = [''a'', ''b''], t_primary_key = [''a'']\<rparr>,
        \<lparr>t_name = ''cs'', t_columns = [''a'', ''c''], t_primary_key = [''a'']\<rparr>]
       \<lparr>written = [], printed = []\<rparr>
     = Inr \<lparr>written = [(''cs'', \<lparr>df_columns = [''a'', ''c''], df_rows = [[Num 1, Num 2], [Num 2, Num 1]]\<rparr>)],
            printed = [Skipping ''bs'' {''b''}, Created ''cs'' 2]\<rparr>"
proof -
  let ?df = "\<lparr>df_columns = [''a'', ''c''], df_rows = [[Num 2, Num 1], [Num 1, Num 2]]\<rparr>"
  let ?tcs = "[\<lparr>t_name = ''bs'', t_columns = [''a'', ''b''], t_primary_key = [''a'']\<rparr>,
      \<lparr>t_name = ''cs'', t_columns = [''a'', ''c''], t_primary_key = [''a'']\<rparr>]"
  have h: "list_all (\<lambda>tc. present ?df tc \<longrightarrow> sortable tc) ?tcs"
    by (simp add: present_def sortable_def)
  then have h': "list_all (\<lambda>tc. \<not> present ?df tc \<or> sortable tc) ?tcs"
    by (simp add: list_all_iff)
  have run: "transform_tables ?df ?tcs \<lparr>written = [], printed = []\<rparr>
     = Inr \<lparr>written = [(''cs'', \<lparr>df_columns = [''a'', ''c''], df_rows = [[Num 1, Num 2], [Num 2, Num 1]]\<rparr>)],
            printed = [Skipping ''bs'' {''b''}, Created ''cs'' 2]\<rparr>"
    by code_simp
  from replay_loop_writes_present_tables [OF h, of "[]"] run
  have "map fst (written \<lparr>written = [(''cs'', \<lparr>df_columns = [''a'', ''c''], df_rows = [[Num 1, Num 2], [Num 2, Num 1]]\<rparr>)],
            printed = [Skipping ''bs'' {''b''}, Created ''cs'' 2]\<rparr>) = map t_name (filter (present ?df) ?tcs)"
    by simp
  with h' run show ?thesis by (intro conjI)
qed

end
